theory Spec2Isabelle
  imports Main "HOL-Library.Char_ord" "HOL-Library.List_Lexorder" "HOL-Library.AList"
begin

section \<open>Python strings\<close>

text \<open>
  A Python \<open>str\<close> is a \<open>string\<close> here; a character stands for the code point of the
  same number, so the model covers the code points below 256. The functions of this
  section are the \<open>str\<close> methods that \<open>configure.py\<close> and the \<open>configparser\<close> module
  it drives apply to section names, keys, values and lines.
\<close>

definition NL :: char where
  "NL = CHR 0x0A"

definition TAB :: char where
  "TAB = CHR 0x09"

definition CR :: char where
  "CR = CHR 0x0D"

definition isspace :: "char \<Rightarrow> bool" where
  \<comment> \<open>\<open>str.isspace\<close> on one character: 9-13, 28-32, 133 and 160.\<close>
  "isspace c = (let n = (of_char c :: nat) in
     (9 \<le> n \<and> n \<le> 13) \<or> (28 \<le> n \<and> n \<le> 32) \<or> n = 133 \<or> n = 160)"

definition lstrip :: "string \<Rightarrow> string" where
  "lstrip s = dropWhile isspace s"

definition rstrip :: "string \<Rightarrow> string" where
  "rstrip s = rev (dropWhile isspace (rev s))"

definition strip :: "string \<Rightarrow> string" where
  "strip s = rstrip (lstrip s)"

definition lower_char :: "char \<Rightarrow> char" where
  \<comment> \<open>\<open>str.lower\<close> on one character: A-Z, and the capital letters of Latin-1.\<close>
  "lower_char c = (let n = (of_char c :: nat) in
     if (65 \<le> n \<and> n \<le> 90) \<or> (192 \<le> n \<and> n \<le> 222 \<and> n \<noteq> 215)
     then char_of (n + 32) else c)"

definition lower :: "string \<Rightarrow> string" where
  "lower s = map lower_char s"

definition upper_char :: "char \<Rightarrow> char" where
  \<comment> \<open>\<open>str.upper\<close> on one character whose capital is one code point below 256.\<close>
  "upper_char c = (let n = (of_char c :: nat) in
     if (97 \<le> n \<and> n \<le> 122) \<or> (224 \<le> n \<and> n \<le> 254 \<and> n \<noteq> 247)
     then char_of (n - 32) else c)"

definition startswith :: "string \<Rightarrow> string \<Rightarrow> bool" where
  "startswith s p = (take (length p) s = p)"

fun contains :: "string \<Rightarrow> string \<Rightarrow> bool" where
  \<comment> \<open>\<open>p in s\<close> for two strings: \<open>p\<close> is a substring of \<open>s\<close>.\<close>
  "contains [] p = (p = [])"
| "contains (c # cs) p = (startswith (c # cs) p \<or> contains cs p)"

fun lines_from :: "string \<Rightarrow> string \<Rightarrow> string list" where
  \<comment> \<open>Iterating a text file: the lines, each without its newline; the first argument is
      the line read so far, reversed.\<close>
  "lines_from cur [] = (if cur = [] then [] else [rev cur])"
| "lines_from cur (c # cs) =
     (if c = NL then rev cur # lines_from [] cs else lines_from (c # cur) cs)"

definition file_lines :: "string \<Rightarrow> string list" where
  "file_lines s = lines_from [] s"


section \<open>The parser object of \<open>configparser\<close>\<close>

text \<open>
  \<open>Configure\<close> keeps its store in a \<open>configparser.ConfigParser()\<close> built with the
  defaults of the module: \<open>BasicInterpolation\<close>, delimiters \<open>=\<close> and \<open>:\<close>, comment
  prefixes \<open>#\<close> and \<open>;\<close>, no inline comments, \<open>strict\<close>, empty lines allowed in
  values, no option without a value, \<open>optionxform = str.lower\<close>. This section models
  the methods of that object which \<open>configure.py\<close> calls, as CPython 3.8 to 3.13
  implement them. A Python \<open>dict\<close> keeps insertion order, so it is an association
  list: assigning to a key that is present keeps its place, assigning to a new key
  appends it (\<open>AList.update\<close>), deleting removes it (\<open>AList.delete\<close>).
\<close>

datatype exn =
    NoSectionError
  | NoOptionError
  | DuplicateSectionError
  | DuplicateOptionError
  | MissingSectionHeaderError
  | ParsingError
  | InterpolationDepthError
  | InterpolationMissingOptionError
  | InterpolationSyntaxError
  | ValueError
  | TypeError
  | UnicodeDecodeError
  | EOFError
  | JSONDecodeError
  | RecursionError
  | FileNotFoundError
  | IsADirectoryError
  | PermissionError

type_synonym pydict = "(string \<times> string) list"

record ConfigParser =
  cp_defaults :: pydict
  cp_sections :: "(string \<times> pydict) list"

definition new_ConfigParser :: ConfigParser where
  "new_ConfigParser = \<lparr>cp_defaults = [], cp_sections = []\<rparr>"

definition DEFAULTSECT :: string where
  "DEFAULTSECT = ''DEFAULT''"

definition MAX_INTERPOLATION_DEPTH :: nat where
  "MAX_INTERPOLATION_DEPTH = 10"

definition optionxform :: "string \<Rightarrow> string" where
  "optionxform optionstr = lower optionstr"

subsection \<open>\<open>BasicInterpolation\<close>\<close>

definition keycre_match :: "string \<Rightarrow> (string \<times> string) option" where
  \<comment> \<open>\<open>_KEYCRE.match\<close>, the pattern \<open>%\(([^)]+)\)s\<close> at the start of the text: the name
      between the brackets and the text after the match.\<close>
  "keycre_match s =
     (case s of
        c # d # r \<Rightarrow>
          if c = CHR ''%'' \<and> d = CHR ''('' then
            (let name = takeWhile (\<lambda>x. x \<noteq> CHR '')'') r in
             case dropWhile (\<lambda>x. x \<noteq> CHR '')'') r of
               b # e # r' \<Rightarrow> if name \<noteq> [] \<and> e = CHR ''s'' then Some (name, r') else None
             | _ \<Rightarrow> None)
          else None
      | _ \<Rightarrow> None)"

lemma keycre_match_shorter:
  "keycre_match s = Some (name, r') \<Longrightarrow> length r' < length s"
proof -
  have le: "length (dropWhile P xs) \<le> length xs" for P and xs :: string
    by (induction xs) auto
  assume m: "keycre_match s = Some (name, r')"
  then obtain c d r b e where s: "s = c # d # r"
    and dw: "dropWhile (\<lambda>x. x \<noteq> CHR '')'') r = b # e # r'"
    by (auto simp: keycre_match_def Let_def split: list.splits if_splits)
  from le [of "\<lambda>x. x \<noteq> CHR '')''" r] dw have "length r' < length r" by simp
  with s show ?thesis by simp
qed

function interpolate_some :: "(string \<Rightarrow> string option) \<Rightarrow> nat \<Rightarrow> string \<Rightarrow> exn + string" where
  \<comment> \<open>\<open>_interpolate_some\<close>: the text \<open>rest\<close> with \<open>%%\<close> read as \<open>%\<close> and \<open>%(name)s\<close> replaced
      by the value of \<open>name\<close>, itself expanded one level deeper.\<close>
  "interpolate_some m depth rest =
     (if depth > MAX_INTERPOLATION_DEPTH then Inl InterpolationDepthError
      else case rest of
        [] \<Rightarrow> Inr []
      | c # r \<Rightarrow>
          if c \<noteq> CHR ''%'' then
            (case interpolate_some m depth r of Inl e \<Rightarrow> Inl e | Inr s \<Rightarrow> Inr (c # s))
          else
            (case r of
               [] \<Rightarrow> Inl InterpolationSyntaxError
             | d # r2 \<Rightarrow>
                 if d = CHR ''%'' then
                   (case interpolate_some m depth r2 of
                      Inl e \<Rightarrow> Inl e
                    | Inr s \<Rightarrow> Inr (CHR ''%'' # s))
                 else if d = CHR ''('' then
                   (case keycre_match rest of
                      None \<Rightarrow> Inl InterpolationSyntaxError
                    | Some (name, r3) \<Rightarrow>
                        (case m (optionxform name) of
                           None \<Rightarrow> Inl InterpolationMissingOptionError
                         | Some v \<Rightarrow>
                             (case (if CHR ''%'' \<in> set v
                                    then interpolate_some m (depth + 1) v else Inr v) of
                                Inl e \<Rightarrow> Inl e
                              | Inr s1 \<Rightarrow>
                                  (case interpolate_some m depth r3 of
                                     Inl e \<Rightarrow> Inl e
                                   | Inr s2 \<Rightarrow> Inr (s1 @ s2)))))
                 else Inl InterpolationSyntaxError))"
  by pat_completeness auto
termination
  by (relation "measures [\<lambda>(m, depth, rest). Suc MAX_INTERPOLATION_DEPTH - depth,
                          \<lambda>(m, depth, rest). length rest]")
     (auto dest: keycre_match_shorter)

declare interpolate_some.simps [simp del]

definition before_get :: "(string \<Rightarrow> string option) \<Rightarrow> string \<Rightarrow> exn + string" where
  "before_get m v = interpolate_some m 1 v"

fun replace_escaped :: "string \<Rightarrow> string" where
  \<comment> \<open>\<open>value.replace('%%', '')\<close>\<close>
  "replace_escaped [] = []"
| "replace_escaped [c] = [c]"
| "replace_escaped (c # d # r) =
     (if c = CHR ''%'' \<and> d = CHR ''%'' then replace_escaped r
      else c # replace_escaped (d # r))"

function keycre_sub :: "string \<Rightarrow> string" where
  \<comment> \<open>\<open>_KEYCRE.sub('', s)\<close>: every match of the pattern, from the left, removed.\<close>
  "keycre_sub s =
     (case s of
        [] \<Rightarrow> []
      | c # r \<Rightarrow>
          (case keycre_match s of
             Some (name, r') \<Rightarrow> keycre_sub r'
           | None \<Rightarrow> c # keycre_sub r))"
  by pat_completeness auto
termination
  by (relation "measure length") (auto dest: keycre_match_shorter)

declare keycre_sub.simps [simp del]

definition before_set :: "string \<Rightarrow> exn + string" where
  "before_set v =
     (let tmp_value = keycre_sub (replace_escaped v) in
      if CHR ''%'' \<in> set tmp_value then Inl ValueError else Inr v)"


subsection \<open>Reading and changing the parser in memory\<close>

definition unify_values :: "ConfigParser \<Rightarrow> string \<Rightarrow> exn + (string \<Rightarrow> string option)" where
  \<comment> \<open>\<open>_unify_values\<close>: the chain of the section's own keys and the keys of \<open>DEFAULT\<close>.\<close>
  "unify_values cp sect =
     (case map_of (cp_sections cp) sect of
        Some sectiondict \<Rightarrow> Inr (map_of (sectiondict @ cp_defaults cp))
      | None \<Rightarrow>
          if sect \<noteq> DEFAULTSECT then Inl NoSectionError
          else Inr (map_of (cp_defaults cp)))"

definition cp_get :: "ConfigParser \<Rightarrow> string \<Rightarrow> string \<Rightarrow> exn + string" where
  \<comment> \<open>\<open>ConfigParser.get(section, option)\<close>\<close>
  "cp_get cp sect option =
     (case unify_values cp sect of
        Inl e \<Rightarrow> Inl e
      | Inr d \<Rightarrow>
          (case d (optionxform option) of
             None \<Rightarrow> Inl NoOptionError
           | Some v \<Rightarrow> before_get d v))"

definition cp_set :: "ConfigParser \<Rightarrow> string \<Rightarrow> string \<Rightarrow> string \<Rightarrow> exn + ConfigParser" where
  \<comment> \<open>\<open>ConfigParser.set(section, option, value)\<close> with a string value\<close>
  "cp_set cp sect option v =
     (case (if v \<noteq> [] then before_set v else Inr v) of
        Inl e \<Rightarrow> Inl e
      | Inr v' \<Rightarrow>
          if sect = [] \<or> sect = DEFAULTSECT then
            Inr (cp\<lparr>cp_defaults := AList.update (optionxform option) v' (cp_defaults cp)\<rparr>)
          else
            (case map_of (cp_sections cp) sect of
               None \<Rightarrow> Inl NoSectionError
             | Some sectdict \<Rightarrow>
                 Inr (cp\<lparr>cp_sections :=
                   AList.update sect (AList.update (optionxform option) v' sectdict)
                     (cp_sections cp)\<rparr>)))"

definition cp_add_section :: "ConfigParser \<Rightarrow> string \<Rightarrow> exn + ConfigParser" where
  "cp_add_section cp sect =
     (if sect = DEFAULTSECT then Inl ValueError
      else if map_of (cp_sections cp) sect \<noteq> None then Inl DuplicateSectionError
      else Inr (cp\<lparr>cp_sections := cp_sections cp @ [(sect, [])]\<rparr>))"

definition cp_remove_option :: "ConfigParser \<Rightarrow> string \<Rightarrow> string \<Rightarrow> exn + ConfigParser" where
  \<comment> \<open>\<open>remove_option\<close>; the flag it returns is not used by \<open>configure.py\<close>.\<close>
  "cp_remove_option cp sect option =
     (if sect = [] \<or> sect = DEFAULTSECT then
        Inr (cp\<lparr>cp_defaults := AList.delete (optionxform option) (cp_defaults cp)\<rparr>)
      else
        (case map_of (cp_sections cp) sect of
           None \<Rightarrow> Inl NoSectionError
         | Some sectdict \<Rightarrow>
             Inr (cp\<lparr>cp_sections :=
               AList.update sect (AList.delete (optionxform option) sectdict)
                 (cp_sections cp)\<rparr>)))"

definition cp_section_names :: "ConfigParser \<Rightarrow> string list" where
  \<comment> \<open>\<open>sections()\<close>: the section names, \<open>DEFAULT\<close> not among them.\<close>
  "cp_section_names cp = map fst (cp_sections cp)"

definition dict_update :: "pydict \<Rightarrow> pydict \<Rightarrow> pydict" where
  \<comment> \<open>\<open>d.update(other)\<close>\<close>
  "dict_update d other = fold (\<lambda>(k, v) acc. AList.update k v acc) other d"

fun items_interpolated :: "(string \<Rightarrow> string option) \<Rightarrow> pydict \<Rightarrow> exn + pydict" where
  \<comment> \<open>the list comprehension of \<open>items\<close>: each value through \<open>before_get\<close>, in order\<close>
  "items_interpolated m [] = Inr []"
| "items_interpolated m ((k, v) # kvs) =
     (case before_get m v of
        Inl e \<Rightarrow> Inl e
      | Inr v' \<Rightarrow>
          (case items_interpolated m kvs of
             Inl e \<Rightarrow> Inl e
           | Inr r \<Rightarrow> Inr ((k, v') # r)))"

definition cp_items :: "ConfigParser \<Rightarrow> string \<Rightarrow> exn + pydict" where
  \<comment> \<open>\<open>items(section)\<close>: the keys of \<open>DEFAULT\<close> and of the section, values interpolated\<close>
  "cp_items cp sect =
     (case (case map_of (cp_sections cp) sect of
              Some sectiondict \<Rightarrow> Inr (dict_update (cp_defaults cp) sectiondict)
            | None \<Rightarrow>
                if sect \<noteq> DEFAULTSECT then Inl NoSectionError
                else Inr (cp_defaults cp)) of
        Inl e \<Rightarrow> Inl e
      | Inr d \<Rightarrow> items_interpolated (map_of d) d)"

subsection \<open>Writing the parser as text\<close>

definition replace_newlines :: "string \<Rightarrow> string" where
  \<comment> \<open>\<open>str(value).replace('\n', '\n\t')\<close>\<close>
  "replace_newlines v = concat (map (\<lambda>c. if c = NL then [NL, TAB] else [c]) v)"

definition write_item :: "string \<times> string \<Rightarrow> string" where
  "write_item kv = fst kv @ '' = '' @ replace_newlines (snd kv) @ [NL]"

definition write_section :: "string \<Rightarrow> pydict \<Rightarrow> string" where
  \<comment> \<open>\<open>_write_section\<close> with the delimiter \<open>" = "\<close>\<close>
  "write_section section_name section_items =
     ''['' @ section_name @ '']'' @ [NL] @ concat (map write_item section_items) @ [NL]"

definition cp_write :: "ConfigParser \<Rightarrow> string" where
  \<comment> \<open>\<open>ConfigParser.write(fp)\<close>: the text written to \<open>fp\<close>\<close>
  "cp_write cp =
     (if cp_defaults cp \<noteq> [] then write_section DEFAULTSECT (cp_defaults cp) else [])
     @ concat (map (\<lambda>(name, d). write_section name d) (cp_sections cp))"

subsection \<open>Reading text into the parser\<close>

text \<open>
  \<open>ConfigParser._read\<close> walks the lines of the file and stores sections and options
  into the parser as it meets them; when it raises, what it has stored so far stays.
  (It stays with the lines of each value of this file still in a list: joining them is
  the last step of \<open>_read\<close>, and the next \<open>_read\<close> that returns does it. The model holds
  the values joined at once, so it says what sections and keys a parser has after
  \<open>_read\<close> raised, not what \<open>get\<close> or \<open>write\<close> would make of their values before the
  next \<open>_read\<close> returns; nothing below asks that.)
  Here the walk (\<open>read_line\<close>) collects what it meets as a list of items, and
  \<open>store_item\<close> stores them afterwards, in the same order; the errors of the walk
  depend on the text only. (The test of \<open>_read\<close> for a repeated header asks whether the
  name is a section of the parser; a parser never has a section named \<open>DEFAULT\<close>, so
  the test fails exactly for that name.)
\<close>

datatype ini_item =
    Header string
  | Opt string string "string list"

record parse_state =
  ps_items :: "ini_item list"
  ps_sectname :: "string option"
  ps_optname :: "string option"
  ps_indent_level :: nat
  ps_e :: bool

definition initial_parse_state :: parse_state where
  "initial_parse_state =
     \<lparr>ps_items = [], ps_sectname = None, ps_optname = None, ps_indent_level = 0,
      ps_e = False\<rparr>"

definition sectcre_match :: "string \<Rightarrow> string option" where
  \<comment> \<open>\<open>SECTCRE.match\<close>, the pattern \<open>\[(?P<header>.+)\]\<close> at the start of the line: the
      text between the opening bracket and the last closing bracket.\<close>
  "sectcre_match v =
     (case v of
        [] \<Rightarrow> None
      | c # r \<Rightarrow>
          if c = CHR ''['' \<and> CHR '']'' \<in> set r then
            (let header = rev (tl (dropWhile (\<lambda>x. x \<noteq> CHR '']'') (rev r))) in
             if header \<noteq> [] then Some header else None)
          else None)"

definition is_delimiter :: "char \<Rightarrow> bool" where
  "is_delimiter c = (c = CHR ''='' \<or> c = CHR '':'')"

definition optcre_match :: "string \<Rightarrow> (string \<times> string) option" where
  \<comment> \<open>\<open>_optcre.match\<close>: the text before the first delimiter, without the blanks at its
      end, and the text after that delimiter.\<close>
  "optcre_match v =
     (case dropWhile (\<lambda>x. \<not> is_delimiter x) v of
        [] \<Rightarrow> None
      | vi # optval \<Rightarrow> Some (rstrip (takeWhile (\<lambda>x. \<not> is_delimiter x) v), optval))"

definition append_value :: "parse_state \<Rightarrow> string \<Rightarrow> parse_state" where
  \<comment> \<open>\<open>cursect[optname].append(value)\<close>\<close>
  "append_value st v =
     st\<lparr>ps_items :=
       map (\<lambda>it. case it of
                   Header name \<Rightarrow> Header name
                 | Opt sn k ls \<Rightarrow>
                     if Some sn = ps_sectname st \<and> Some k = ps_optname st
                     then Opt sn k (ls @ [v]) else Opt sn k ls)
           (ps_items st)\<rparr>"

definition in_option :: "parse_state \<Rightarrow> bool" where
  \<comment> \<open>\<open>cursect is not None and optname\<close>\<close>
  "in_option st =
     (ps_sectname st \<noteq> None \<and> ps_optname st \<noteq> None \<and> ps_optname st \<noteq> Some [])"

definition is_opt_of :: "string \<Rightarrow> string \<Rightarrow> ini_item \<Rightarrow> bool" where
  "is_opt_of sn k it = (case it of Header name \<Rightarrow> False | Opt sn' k' ls \<Rightarrow> sn' = sn \<and> k' = k)"

definition read_line :: "parse_state \<Rightarrow> string \<Rightarrow> exn + parse_state" where
  \<comment> \<open>the body of the loop of \<open>_read\<close> for one line\<close>
  "read_line st line =
     (let v = strip line in
      if startswith v ''#'' \<or> startswith v '';'' then Inr st
      else if v = [] then
        Inr (if in_option st then append_value st [] else st)
      else
        (let cur_indent_level = length (takeWhile isspace line) in
         if in_option st \<and> cur_indent_level > ps_indent_level st then
           Inr (append_value st v)
         else
           (let st1 = st\<lparr>ps_indent_level := cur_indent_level\<rparr> in
            case sectcre_match v of
              Some sectname \<Rightarrow>
                if sectname \<noteq> DEFAULTSECT \<and> Header sectname \<in> set (ps_items st1)
                then Inl DuplicateSectionError
                else Inr (st1\<lparr>ps_items := ps_items st1 @ [Header sectname],
                               ps_sectname := Some sectname, ps_optname := None\<rparr>)
            | None \<Rightarrow>
                (case ps_sectname st1 of
                   None \<Rightarrow> Inl MissingSectionHeaderError
                 | Some sectname \<Rightarrow>
                     (case optcre_match v of
                        None \<Rightarrow> Inr (st1\<lparr>ps_e := True\<rparr>)
                      | Some (opt, optval) \<Rightarrow>
                          (let st2 = (if opt = [] then st1\<lparr>ps_e := True\<rparr> else st1);
                               optname = optionxform (rstrip opt) in
                           if list_ex (is_opt_of sectname optname) (ps_items st2)
                           then Inl DuplicateOptionError
                           else Inr (st2\<lparr>ps_items :=
                                            ps_items st2 @ [Opt sectname optname [strip optval]],
                                          ps_optname := Some optname\<rparr>)))))))"

fun read_lines :: "parse_state \<Rightarrow> string list \<Rightarrow> exn option \<times> parse_state" where
  "read_lines st [] = (None, st)"
| "read_lines st (line # rest) =
     (case read_line st line of
        Inl e \<Rightarrow> (Some e, st)
      | Inr st' \<Rightarrow> read_lines st' rest)"

definition ini_items :: "string \<Rightarrow> exn option \<times> ini_item list" where
  \<comment> \<open>the walk over a whole text: the exception raised, if any, and the items met. The
      lines that are neither header, option nor continuation raise \<open>ParsingError\<close> at
      the end.\<close>
  "ini_items text =
     (case read_lines initial_parse_state (file_lines text) of
        (Some e, st) \<Rightarrow> (Some e, ps_items st)
      | (None, st) \<Rightarrow> (if ps_e st then Some ParsingError else None, ps_items st))"

fun join_lines :: "string list \<Rightarrow> string" where
  \<comment> \<open>\<open>'\n'.join(val)\<close>\<close>
  "join_lines [] = []"
| "join_lines [l] = l"
| "join_lines (l # ls) = l @ [NL] @ join_lines ls"

fun store_item :: "ini_item \<Rightarrow> ConfigParser \<Rightarrow> ConfigParser" where
  "store_item (Header sectname) cp =
     (if map_of (cp_sections cp) sectname \<noteq> None then cp
      else if sectname = DEFAULTSECT then cp
      else cp\<lparr>cp_sections := cp_sections cp @ [(sectname, [])]\<rparr>)"
| "store_item (Opt sectname optname ls) cp =
     (let v = rstrip (join_lines ls) in
      case map_of (cp_sections cp) sectname of
        Some cursect \<Rightarrow>
          cp\<lparr>cp_sections :=
            AList.update sectname (AList.update optname v cursect) (cp_sections cp)\<rparr>
      | None \<Rightarrow> cp\<lparr>cp_defaults := AList.update optname v (cp_defaults cp)\<rparr>)"

definition cp_read_text :: "ConfigParser \<Rightarrow> string \<Rightarrow> exn option \<times> ConfigParser" where
  \<comment> \<open>\<open>_read\<close> on the decoded text of one file: the exception raised, if any, and the
      parser afterwards\<close>
  "cp_read_text cp text =
     (case ini_items text of (err, its) \<Rightarrow> (err, fold store_item its cp))"

section \<open>Numbers and truth values as text\<close>

definition is_digit :: "char \<Rightarrow> bool" where
  "is_digit c = (48 \<le> (of_char c :: nat) \<and> (of_char c :: nat) \<le> 57)"

definition digit_of :: "char \<Rightarrow> nat" where
  "digit_of c = of_char c - 48"

definition int_space :: "char \<Rightarrow> bool" where
  \<comment> \<open>the blanks \<open>int\<close> skips around a number: 9-13, 32, 133 and 160\<close>
  "int_space c = (let n = (of_char c :: nat) in
     (9 \<le> n \<and> n \<le> 13) \<or> n = 32 \<or> n = 133 \<or> n = 160)"

fun digits_ok :: "string \<Rightarrow> bool" where
  \<comment> \<open>digits, with single underscores between digits only\<close>
  "digits_ok [] = False"
| "digits_ok [c] = is_digit c"
| "digits_ok (c # d # r) =
     (is_digit c \<and> (if d = CHR ''_'' then digits_ok r else digits_ok (d # r)))"

definition digits_val :: "string \<Rightarrow> nat" where
  "digits_val ds = foldl (\<lambda>a c. 10 * a + digit_of c) 0 (filter is_digit ds)"

definition int_max_str_digits :: nat where
  \<comment> \<open>\<open>sys.get_int_max_str_digits()\<close> as the interpreter starts\<close>
  "int_max_str_digits = 4300"

definition digits_within_limit :: "string \<Rightarrow> bool" where
  \<comment> \<open>the digits are counted as they stand, leading zeros too; underscores, the sign
      and the blanks around are not counted\<close>
  "digits_within_limit r = (length (filter is_digit r) \<le> int_max_str_digits)"

definition int_of_str :: "string \<Rightarrow> int option" where
  \<comment> \<open>\<open>int(s, 10)\<close> on a string; \<open>None\<close> is \<open>ValueError\<close>, which \<open>int\<close> raises for a text
      that is no number and for a number of more digits than the limit\<close>
  "int_of_str s =
     (let t = rev (dropWhile int_space (rev (dropWhile int_space s))) in
      case t of
        [] \<Rightarrow> None
      | c # r \<Rightarrow>
          if c = CHR ''-'' then
            (if digits_ok r \<and> digits_within_limit r then Some (- int (digits_val r)) else None)
          else if c = CHR ''+'' then
            (if digits_ok r \<and> digits_within_limit r then Some (int (digits_val r)) else None)
          else
            (if digits_ok t \<and> digits_within_limit t then Some (int (digits_val t)) else None))"

function str_of_nat :: "nat \<Rightarrow> string" where
  "str_of_nat n =
     (if n < 10 then [char_of (48 + n)]
      else str_of_nat (n div 10) @ [char_of (48 + n mod 10)])"
  by pat_completeness auto
termination
  by (relation "measure id") auto

declare str_of_nat.simps [simp del]

definition str_of_int :: "int \<Rightarrow> string" where
  \<comment> \<open>\<open>str(i)\<close> for an \<open>int\<close> that \<open>str\<close> accepts: the numbers that \<open>read_int\<close> hands to
      \<open>str\<close> are a default of the caller and what \<open>int\<close> has read, and a default of more
      digits than the limit, for which \<open>str\<close> raises, is not among those considered\<close>
  "str_of_int i = (if i < 0 then CHR ''-'' # str_of_nat (nat (- i)) else str_of_nat (nat i))"

definition str_of_bool :: "bool \<Rightarrow> string" where
  "str_of_bool b = (if b then ''True'' else ''False'')"

definition str_of_opt :: "('a \<Rightarrow> string) \<Rightarrow> 'a option \<Rightarrow> string" where
  \<comment> \<open>\<open>str(default_val)\<close> for a default that may be \<open>None\<close>\<close>
  "str_of_opt f x = (case x of None \<Rightarrow> ''None'' | Some a \<Rightarrow> f a)"

definition upper :: "string \<Rightarrow> string" where
  \<comment> \<open>\<open>str.upper\<close>; the three small letters below 256 whose capital is not one code point
      below 256 stay as they are, which no comparison with a word of ASCII notices.\<close>
  "upper s = map upper_char s"


section \<open>The class \<open>Configure\<close>\<close>

text \<open>
  The state holds the two attributes of the object that its methods use, \<open>_config\<close>
  and \<open>configure_path\<close>, and the part of the machine they touch: the files, by path,
  each with the characters written to it, and the lines still to come on the console.
  The object's own file is a plain file, there or not, that can be opened when it is
  there and created when it is not. Reading the console past its last line raises \<open>EOFError\<close>, as \<open>input\<close>
  does at the end of its input. A method ends in one of three ways: it returns, the
  process leaves through \<open>exit\<close>, or an exception leaves the method. The calls of
  the logger change neither the state nor a result and are left out.

  Opening a file for reading decodes it: \<open>dec encoding content\<close> is the text that
  \<open>open(path, encoding=encoding)\<close> delivers for a file of that content, \<open>None\<close> when
  the content does not decode (taken to fail before the first line is read). It is a
  parameter of the methods that read the file.

  \<open>export\<close> writes to a path of the caller's choice, and \<open>open(path, 'w')\<close> does not
  open every path: it raises \<open>FileNotFoundError\<close> for the empty path and for a path in
  a directory that is not there, \<open>IsADirectoryError\<close> for a directory and
  \<open>PermissionError\<close> where the caller may not write. \<open>open_w path\<close> is the exception
  that \<open>open(path, 'w')\<close> raises, \<open>None\<close> when it opens the file; it is a parameter of
  \<open>export\<close>. A path exists when it names one of the files or a directory.
\<close>

datatype 'a outcome =
    Return 'a
  | Exit int
  | Raise exn

record state =
  config :: ConfigParser
  configure_path :: string
  files :: "string \<Rightarrow> string option"
  stdin :: "string list"

definition and_then ::
  "'a outcome \<times> state \<Rightarrow> ('a \<Rightarrow> state \<Rightarrow> 'b outcome \<times> state) \<Rightarrow> 'b outcome \<times> state" where
  \<comment> \<open>one statement after another: the second runs when the first returns\<close>
  "and_then m f =
     (case m of
        (Return a, st) \<Rightarrow> f a st
      | (Exit n, st) \<Rightarrow> (Exit n, st)
      | (Raise e, st) \<Rightarrow> (Raise e, st))"

definition YES_NO_VALIDATOR :: "string \<Rightarrow> bool" where
  "YES_NO_VALIDATOR i = (length i = 1 \<and> contains ''YyNn'' i)"

fun Configure_prompt ::
  "string \<Rightarrow> (string \<Rightarrow> bool) \<Rightarrow> string option \<Rightarrow> string list \<Rightarrow> (exn + string) \<times> string list" where
  \<comment> \<open>\<open>_prompt\<close>: the loop over the lines of the console; the result and the lines left\<close>
  "Configure_prompt prompt validator dflt [] = (Inl EOFError, [])"
| "Configure_prompt prompt validator dflt (i # rest) =
     (if i = [] then
        (case dflt of
           Some d \<Rightarrow> (Inr d, rest)
         | None \<Rightarrow> Configure_prompt prompt validator dflt rest)
      else if validator i then (Inr i, rest)
      else Configure_prompt prompt validator dflt rest)"

definition path_exists :: "(string \<Rightarrow> exn option) \<Rightarrow> state \<Rightarrow> string \<Rightarrow> bool" where
  \<comment> \<open>\<open>os.path.exists\<close>\<close>
  "path_exists open_w st path =
     (files st path \<noteq> None \<or> open_w path = Some IsADirectoryError)"

definition Configure_export ::
  "(string \<Rightarrow> exn option) \<Rightarrow> string \<Rightarrow> bool \<Rightarrow> state \<Rightarrow> bool outcome \<times> state" where
  "Configure_export open_w path force st =
     (if path_exists open_w st path \<and> \<not> force then (Return False, st)
      else
        (case open_w path of
           Some e \<Rightarrow> (Raise e, st)
         | None \<Rightarrow>
             (Return True, st\<lparr>files := (files st)(path \<mapsto> cp_write (config st))\<rparr>)))"

definition Configure_reload ::
  "(string \<Rightarrow> string \<Rightarrow> string option) \<Rightarrow> string \<Rightarrow> bool \<Rightarrow> state \<Rightarrow> unit outcome \<times> state" where
  \<comment> \<open>the \<open>export\<close> to the object's own path is on a path that opens\<close>
  "Configure_reload dec encoding force_quit st =
     (case files st (configure_path st) of
        Some content \<Rightarrow>
          (case dec encoding content of
             None \<Rightarrow> (Raise UnicodeDecodeError, st)
           | Some text \<Rightarrow>
               (case cp_read_text (config st) text of
                  (Some e, cp) \<Rightarrow> (Raise e, st\<lparr>config := cp\<rparr>)
                | (None, cp) \<Rightarrow> (Return (), st\<lparr>config := cp\<rparr>)))
      | None \<Rightarrow>
          if force_quit then (Exit 1, st)
          else
            (case Configure_prompt (configure_path st @ '' is not exist. Create it? [Y/n]'')
                    YES_NO_VALIDATOR (Some ''y'') (stdin st) of
               (Inl e, rest) \<Rightarrow> (Raise e, st\<lparr>stdin := rest\<rparr>)
             | (Inr i, rest) \<Rightarrow>
                 if contains ''Yy'' i then
                   and_then
                     (Configure_export (\<lambda>p. None) (configure_path st) False
                        (st\<lparr>stdin := rest\<rparr>))
                     (\<lambda>r st'. (Return (), st'))
                 else (Return (), st\<lparr>stdin := rest\<rparr>)))"


fun resort :: "ConfigParser \<Rightarrow> string \<Rightarrow> pydict \<Rightarrow> exn option \<times> ConfigParser" where
  \<comment> \<open>the inner loop of \<open>_save\<close>: each key removed and set again, in the order given\<close>
  "resort cp sect [] = (None, cp)"
| "resort cp sect ((k, v) # kvs) =
     (case cp_remove_option cp sect k of
        Inl e \<Rightarrow> (Some e, cp)
      | Inr cp1 \<Rightarrow>
          (case cp_set cp1 sect k v of
             Inl e \<Rightarrow> (Some e, cp1)
           | Inr cp2 \<Rightarrow> resort cp2 sect kvs))"

fun save_sections :: "ConfigParser \<Rightarrow> string list \<Rightarrow> exn option \<times> ConfigParser" where
  \<comment> \<open>the outer loop of \<open>_save\<close> over the names that \<open>sections()\<close> gave\<close>
  "save_sections cp [] = (None, cp)"
| "save_sections cp (sect # rest) =
     (case cp_items cp sect of
        Inl e \<Rightarrow> (Some e, cp)
      | Inr its \<Rightarrow>
          (case resort cp sect (sort_key fst its) of
             (Some e, cp') \<Rightarrow> (Some e, cp')
           | (None, cp') \<Rightarrow> save_sections cp' rest))"

definition Configure_save :: "state \<Rightarrow> unit outcome \<times> state" where
  "Configure_save st =
     (case save_sections (config st) (cp_section_names (config st)) of
        (Some e, cp) \<Rightarrow> (Raise e, st\<lparr>config := cp\<rparr>)
      | (None, cp) \<Rightarrow>
          (Return (),
           st\<lparr>config := cp, files := (files st)(configure_path st \<mapsto> cp_write cp)\<rparr>))"

definition is_absent :: "exn \<Rightarrow> bool" where
  \<comment> \<open>the exceptions that the handlers \<open>except (NoSectionError, NoOptionError)\<close> catch\<close>
  "is_absent e = (e = NoSectionError \<or> e = NoOptionError)"

definition Configure_read_conf ::
  "(string \<Rightarrow> string \<Rightarrow> string option) \<Rightarrow> string \<Rightarrow> string \<Rightarrow> string option \<Rightarrow> bool \<Rightarrow> state \<Rightarrow>
   string option outcome \<times> state" where
  "Configure_read_conf dec sect key default_val required st =
     and_then (Configure_reload dec ''UTF-8'' True st) (\<lambda>u st1.
       if sect = [] \<or> key = [] then (Return None, st1)
       else
         (case cp_get (config st1) sect key of
            Inr v \<Rightarrow> (Return (Some v), st1)
          | Inl e \<Rightarrow>
              if is_absent e then
                (if required \<and> default_val = None then (Return None, st1)
                 else (Return default_val, st1))
              else (Raise e, st1)))"

definition Configure_write ::
  "(string \<Rightarrow> string \<Rightarrow> string option) \<Rightarrow> string \<Rightarrow> string \<Rightarrow> string \<Rightarrow> bool \<Rightarrow> state \<Rightarrow>
   unit outcome \<times> state" where
  "Configure_write dec sect key v store st =
     and_then (Configure_reload dec ''UTF-8'' True st) (\<lambda>u st1.
       if sect = [] \<or> key = [] then (Exit 1, st1)
       else
         and_then
           (case cp_set (config st1) sect key v of
              Inr cp \<Rightarrow> (Return (), st1\<lparr>config := cp\<rparr>)
            | Inl e \<Rightarrow>
                if e = NoSectionError then
                  (case cp_add_section (config st1) sect of
                     Inl e' \<Rightarrow> (Raise e', st1)
                   | Inr cp1 \<Rightarrow>
                       (case cp_set cp1 sect key v of
                          Inl e' \<Rightarrow> (Raise e', st1\<lparr>config := cp1\<rparr>)
                        | Inr cp2 \<Rightarrow> (Return (), st1\<lparr>config := cp2\<rparr>)))
                else (Raise e, st1))
           (\<lambda>u st2. if store then Configure_save st2 else (Return (), st2)))"

definition save_default ::
  "(string \<Rightarrow> string \<Rightarrow> string option) \<Rightarrow> string \<Rightarrow> string \<Rightarrow> ('a \<Rightarrow> string) \<Rightarrow> 'a option \<Rightarrow> state \<Rightarrow>
   'a option outcome \<times> state" where
  \<comment> \<open>the end of each \<open>read\<close> method: when the key is not in the parser and a value was
      found, the value is written, as text; the value is returned.\<close>
  "save_default dec sect key to_str val st =
     (case cp_get (config st) sect key of
        Inr v \<Rightarrow> (Return val, st)
      | Inl e \<Rightarrow>
          if is_absent e then
            (case val of
               None \<Rightarrow> (Return val, st)
             | Some a \<Rightarrow>
                 and_then (Configure_write dec sect key (to_str a) True st)
                   (\<lambda>u st'. (Return val, st')))
          else (Raise e, st))"

definition Configure_read ::
  "(string \<Rightarrow> string \<Rightarrow> string option) \<Rightarrow> string \<Rightarrow> string \<Rightarrow> string option \<Rightarrow> bool \<Rightarrow> state \<Rightarrow>
   string option outcome \<times> state" where
  "Configure_read dec sect key default_val required st =
     and_then (Configure_read_conf dec sect key default_val required st)
       (\<lambda>val st1. save_default dec sect key (\<lambda>s. s) val st1)"

definition Configure_read_bool ::
  "(string \<Rightarrow> string \<Rightarrow> string option) \<Rightarrow> string \<Rightarrow> string \<Rightarrow> bool option \<Rightarrow> bool \<Rightarrow> state \<Rightarrow>
   bool option outcome \<times> state" where
  "Configure_read_bool dec sect key default_val required st =
     and_then
       (Configure_read_conf dec sect key (Some (str_of_opt str_of_bool default_val)) required st)
       (\<lambda>val st1.
          save_default dec sect key str_of_bool
            (case val of
               None \<Rightarrow> default_val
             | Some s \<Rightarrow>
                 (let v = upper s in
                  if v = ''TRUE'' \<or> v = ''FALSE'' then Some (v = ''TRUE'') else default_val))
            st1)"

definition Configure_read_float ::
  "(string \<Rightarrow> string \<Rightarrow> string option) \<Rightarrow> (string \<Rightarrow> 'f option) \<Rightarrow> ('f \<Rightarrow> string) \<Rightarrow>
   string \<Rightarrow> string \<Rightarrow> 'f option \<Rightarrow> bool \<Rightarrow> state \<Rightarrow> 'f option outcome \<times> state" where
  \<comment> \<open>\<open>float_of_str\<close> is \<open>float\<close> on a string (\<open>None\<close>: \<open>ValueError\<close>) and \<open>str_of_float\<close> is
      \<open>str\<close> on a float: parameters, for any type of floating-point numbers.\<close>
  "Configure_read_float dec float_of_str str_of_float sect key default_val required st =
     and_then
       (Configure_read_conf dec sect key (Some (str_of_opt str_of_float default_val)) required st)
       (\<lambda>val st1.
          case val of
            None \<Rightarrow> (Raise TypeError, st1)
          | Some s \<Rightarrow>
              save_default dec sect key str_of_float
                (case float_of_str s of Some f \<Rightarrow> Some f | None \<Rightarrow> default_val) st1)"

definition Configure_read_int ::
  "(string \<Rightarrow> string \<Rightarrow> string option) \<Rightarrow> string \<Rightarrow> string \<Rightarrow> int option \<Rightarrow> bool \<Rightarrow> state \<Rightarrow>
   int option outcome \<times> state" where
  "Configure_read_int dec sect key default_val required st =
     and_then
       (Configure_read_conf dec sect key (Some (str_of_opt str_of_int default_val)) required st)
       (\<lambda>val st1.
          case val of
            None \<Rightarrow> (Raise TypeError, st1)
          | Some s \<Rightarrow>
              save_default dec sect key str_of_int
                (case int_of_str s of Some i \<Rightarrow> Some i | None \<Rightarrow> default_val) st1)"

definition Configure_read_json ::
  "(string \<Rightarrow> string \<Rightarrow> string option) \<Rightarrow> (string \<Rightarrow> exn + 'j option) \<Rightarrow> string \<Rightarrow> string \<Rightarrow>
   state \<Rightarrow> 'j option outcome \<times> state" where
  \<comment> \<open>\<open>json_loads\<close> is \<open>json.loads\<close> on a string, a parameter: the value of the text
      (Python's \<open>None\<close> for the text \<open>null\<close>), or the exception it raises:
      \<open>JSONDecodeError\<close> for a text that is not JSON, \<open>ValueError\<close> for a number of
      more digits than \<open>int\<close> accepts, \<open>RecursionError\<close> for brackets nested too deep.
      The method catches \<open>JSONDecodeError\<close> and no other.\<close>
  "Configure_read_json dec json_loads sect key st =
     and_then (Configure_read_conf dec sect key None True st) (\<lambda>ret st1.
       case ret of
         None \<Rightarrow> (Raise TypeError, st1)
       | Some s \<Rightarrow>
           (case json_loads s of
              Inr j \<Rightarrow> (Return j, st1)
            | Inl e \<Rightarrow> if e = JSONDecodeError then (Return None, st1) else (Raise e, st1)))"

section \<open>The shape of a parser\<close>

text \<open>
  The two dictionaries of a parser hold each key once, and every key as \<open>optionxform\<close>
  leaves it: \<open>set\<close> and \<open>_read\<close> store keys through \<open>optionxform\<close>. Section names are
  distinct, none is empty and none is \<open>DEFAULT\<close>: \<open>add_section\<close> refuses \<open>DEFAULT\<close>,
  \<open>_read\<close> files its options under the defaults, and \<open>write\<close> of \<open>configure.py\<close>
  leaves before it adds a section without a name. \<open>parser_ok\<close> states this shape;
  the empty parser has it and every method below keeps it.
\<close>

definition dict_ok :: "pydict \<Rightarrow> bool" where
  "dict_ok d = (distinct (map fst d) \<and> (\<forall>p \<in> set d. optionxform (fst p) = fst p))"

definition parser_ok :: "ConfigParser \<Rightarrow> bool" where
  "parser_ok cp =
     (distinct (map fst (cp_sections cp))
      \<and> (\<forall>p \<in> set (cp_sections cp). fst p \<noteq> [] \<and> fst p \<noteq> DEFAULTSECT \<and> dict_ok (snd p))
      \<and> dict_ok (cp_defaults cp))"

definition in_section :: "ConfigParser \<Rightarrow> string \<Rightarrow> string \<Rightarrow> bool" where
  \<comment> \<open>the section is there and holds the key itself (not through \<open>DEFAULT\<close>)\<close>
  "in_section cp sect k =
     (case map_of (cp_sections cp) sect of None \<Rightarrow> False | Some d \<Rightarrow> k \<in> fst ` set d)"

definition item_ok :: "ini_item \<Rightarrow> bool" where
  "item_ok it = (case it of Header n \<Rightarrow> n \<noteq> [] | Opt sn k ls \<Rightarrow> optionxform k = k)"

definition delete_keys :: "pydict \<Rightarrow> pydict \<Rightarrow> pydict" where
  \<comment> \<open>a dictionary after the keys of \<open>kvs\<close> have been deleted from it\<close>
  "delete_keys kvs d = filter (\<lambda>p. fst p \<notin> fst ` set kvs) d"
section \<open>Parsers that survive the file\<close>

text \<open>
  What \<open>write\<close> of the parser puts into the file is not always what \<open>_read\<close> gets
  back from it: \<open>_read\<close> strips keys and values, takes \<open>#\<close> and \<open>;\<close> at the start of a
  line for a comment and \<open>[\<close> for a header, cuts a key at the first \<open>=\<close> or \<open>:\<close>, and
  \<open>get\<close> and \<open>items\<close> read \<open>%\<close> as the interpolation sign. A section name, a key and a
  value are \<^emph>\<open>clean\<close> when none of this touches them, and a parser is clean when all it
  holds is.
\<close>

definition no_blank_ends :: "string \<Rightarrow> bool" where
  "no_blank_ends s = (s = [] \<or> (\<not> isspace (hd s) \<and> \<not> isspace (last s)))"

definition clean_section :: "string \<Rightarrow> bool" where
  "clean_section n = (n \<noteq> [] \<and> n \<noteq> DEFAULTSECT \<and> (\<forall>c \<in> set n. c \<noteq> NL \<and> c \<noteq> CR))"

definition clean_key :: "string \<Rightarrow> bool" where
  "clean_key k =
     (k \<noteq> [] \<and> optionxform k = k \<and> no_blank_ends k
      \<and> hd k \<noteq> CHR ''#'' \<and> hd k \<noteq> CHR '';'' \<and> hd k \<noteq> CHR ''[''
      \<and> (\<forall>c \<in> set k. \<not> is_delimiter c \<and> c \<noteq> NL \<and> c \<noteq> CR))"

definition clean_value :: "string \<Rightarrow> bool" where
  "clean_value v =
     (no_blank_ends v \<and> (\<forall>c \<in> set v. c \<noteq> NL \<and> c \<noteq> CR \<and> c \<noteq> CHR ''%''))"

definition clean_dict :: "pydict \<Rightarrow> bool" where
  "clean_dict d =
     (distinct (map fst d) \<and> (\<forall>p \<in> set d. clean_key (fst p) \<and> clean_value (snd p)))"

definition clean_parser :: "ConfigParser \<Rightarrow> bool" where
  "clean_parser cp =
     (distinct (map fst (cp_sections cp))
      \<and> (\<forall>p \<in> set (cp_sections cp). clean_section (fst p) \<and> clean_dict (snd p))
      \<and> clean_dict (cp_defaults cp))"

text \<open>
  The file of a clean parser, line by line, and the items \<open>_read\<close> finds in these lines.
  \<open>joined\<close> is an item as \<open>_join_multiline_values\<close> leaves it.
\<close>

definition item_tail :: "string \<Rightarrow> string" where
  "item_tail v = (if v = [] then [] else CHR '' '' # v)"

definition joined :: "ini_item \<Rightarrow> ini_item" where
  "joined it =
     (case it of Header n \<Rightarrow> Header n | Opt sn k ls \<Rightarrow> Opt sn k [rstrip (join_lines ls)])"

definition item_line :: "string \<times> string \<Rightarrow> string" where
  "item_line kv = fst kv @ '' = '' @ snd kv"

definition section_lines :: "string \<Rightarrow> pydict \<Rightarrow> string list" where
  "section_lines n d = (''['' @ n @ '']'') # map item_line d @ [[]]"

definition section_items :: "string \<Rightarrow> pydict \<Rightarrow> ini_item list" where
  "section_items n d = Header n # map (\<lambda>kv. Opt n (fst kv) [snd kv]) d"

definition item_section :: "ini_item \<Rightarrow> string" where
  "item_section it = (case it of Header n \<Rightarrow> n | Opt sn k ls \<Rightarrow> sn)"

definition all_blocks :: "ConfigParser \<Rightarrow> (string \<times> pydict) list" where
  "all_blocks cp =
     (if cp_defaults cp \<noteq> [] then [(DEFAULTSECT, cp_defaults cp)] else []) @ cp_sections cp"

definition unlines :: "string list \<Rightarrow> string" where
  "unlines ls = concat (map (\<lambda>l. l @ [NL]) ls)"

text \<open>
  A decoder is faithful for \<open>UTF-8\<close> when text without carriage returns, written by
  \<open>_save\<close> and read back by \<open>_reload\<close>, comes back as it was (the file is opened in text
  mode both times, so a carriage return would not).
\<close>

definition utf8_faithful :: "(string \<Rightarrow> string \<Rightarrow> string option) \<Rightarrow> bool" where
  "utf8_faithful dec = (\<forall>t. CR \<notin> set t \<longrightarrow> dec ''UTF-8'' t = Some t)"

text \<open>
  The items of one file, in the order \<open>_read\<close> meets them: an option comes after the header
  of its section, and no option comes twice (\<open>_read\<close> is strict, it raises
  \<open>DuplicateOptionError\<close> instead). \<open>items_wf_rev\<close> reads the list from its end. An item is
  \<open>stored\<close> in a parser when storing it again changes nothing.
\<close>

fun items_wf_rev :: "ini_item list \<Rightarrow> bool" where
  "items_wf_rev [] = True"
| "items_wf_rev (Header n # r) = items_wf_rev r"
| "items_wf_rev (Opt sn k ls # r) =
     (Header sn \<in> set r \<and> \<not> list_ex (is_opt_of sn k) r \<and> items_wf_rev r)"

definition items_wf :: "ini_item list \<Rightarrow> bool" where
  "items_wf its = items_wf_rev (rev its)"

definition stored :: "ConfigParser \<Rightarrow> ini_item \<Rightarrow> bool" where
  "stored cp it =
     (case it of
        Header n \<Rightarrow> map_of (cp_sections cp) n \<noteq> None \<or> n = DEFAULTSECT
      | Opt sn k ls \<Rightarrow>
          (case map_of (cp_sections cp) sn of
             Some d \<Rightarrow> map_of d k = Some (rstrip (join_lines ls))
           | None \<Rightarrow> sn = DEFAULTSECT
                \<and> map_of (cp_defaults cp) k = Some (rstrip (join_lines ls))))"

definition same_shape :: "ini_item \<Rightarrow> ini_item \<Rightarrow> bool" where
  "same_shape a b =
     (case a of Header n \<Rightarrow> b = Header n | Opt sn k ls \<Rightarrow> (\<exists>ls'. b = Opt sn k ls'))"

definition parse_inv :: "parse_state \<Rightarrow> bool" where
  "parse_inv st =
     (items_wf (ps_items st)
      \<and> (\<forall>sn. ps_sectname st = Some sn \<longrightarrow> Header sn \<in> set (ps_items st)))"

definition header_stored :: "ConfigParser \<Rightarrow> string \<Rightarrow> bool" where
  "header_stored cp n = (map_of (cp_sections cp) n \<noteq> None \<or> n = DEFAULTSECT)"


section \<open>Example machines\<close>

definition utf8_only :: "string \<Rightarrow> string \<Rightarrow> string option" where
  \<comment> \<open>a decoder for the examples: files of ASCII, read back as they are under
      \<open>UTF-8\<close>; every other encoding is refused.\<close>
  "utf8_only encoding content = (if encoding = ''UTF-8'' then Some content else None)"



definition lost_file :: state where
  \<comment> \<open>an object whose file has been removed after construction\<close>
  "lost_file =
     \<lparr>config = \<lparr>cp_defaults = [], cp_sections = [(''sec'', [(''k'', ''v'')])]\<rparr>,
      configure_path = ''config.ini'', files = Map.empty, stdin = []\<rparr>"

definition tiny_file :: string where
  "tiny_file = ''[sec]'' @ [NL] @ ''k = v'' @ [NL] @ [NL]"

definition tiny_parser :: ConfigParser where
  "tiny_parser = \<lparr>cp_defaults = [], cp_sections = [(''sec'', [(''k'', ''v'')])]\<rparr>"

definition tiny_state :: state where
  \<comment> \<open>an object and its file, holding one section with one key\<close>
  "tiny_state =
     \<lparr>config = tiny_parser, configure_path = ''config.ini'',
      files = [''config.ini'' \<mapsto> tiny_file], stdin = []\<rparr>"

definition empty_store :: state where
  \<comment> \<open>an object just built on an empty file\<close>
  "empty_store =
     \<lparr>config = new_ConfigParser, configure_path = ''config.ini'',
      files = [''config.ini'' \<mapsto> []], stdin = []\<rparr>"

definition wrote_b :: state where
  "wrote_b = snd (Configure_write utf8_only ''sec'' ''b'' ''2'' False empty_store)"

definition wrote_b_a :: state where
  "wrote_b_a = snd (Configure_write utf8_only ''sec'' ''a'' ''1'' False wrote_b)"

definition saved_b_a :: state where
  "saved_b_a = snd (Configure_save wrote_b_a)"

definition percent_file :: string where
  "percent_file = ''[s]'' @ [NL] @ ''rate = 50%%'' @ [NL]"

definition percent_store :: state where
  \<comment> \<open>an object just built on a file that holds an escaped percent sign\<close>
  "percent_store =
     \<lparr>config = \<lparr>cp_defaults = [], cp_sections = [(''s'', [(''rate'', ''50%%'')])]\<rparr>,
      configure_path = ''config.ini'',
      files = [''config.ini'' \<mapsto> percent_file], stdin = []\<rparr>"







definition default_file :: string where
  "default_file =
     ''[DEFAULT]'' @ [NL] @ ''z = 1'' @ [NL] @ ''b = 2'' @ [NL] @ [NL]
       @ ''[sec]'' @ [NL] @ ''k = v'' @ [NL] @ [NL]"

definition default_store :: state where
  \<comment> \<open>an object just built on a file with two keys under \<open>DEFAULT\<close>\<close>
  "default_store =
     \<lparr>config = \<lparr>cp_defaults = [(''z'', ''1''), (''b'', ''2'')],
                 cp_sections = [(''sec'', [(''k'', ''v'')])]\<rparr>,
      configure_path = ''config.ini'',
      files = [''config.ini'' \<mapsto> default_file], stdin = []\<rparr>"


datatype json = JBool bool | JInt int

definition json_loads_ex :: "string \<Rightarrow> exn + json option" where
  "json_loads_ex s =
     (if s = ''true'' then Inr (Some (JBool True))
      else if s = ''false'' then Inr (Some (JBool False))
      else if s = ''null'' then Inr None
      else if s = ''42'' then Inr (Some (JInt 42))
      else Inl JSONDecodeError)"

definition float_of_str_ex :: "string \<Rightarrow> int option" where
  "float_of_str_ex s = int_of_str s"

definition str_of_float_ex :: "int \<Rightarrow> string" where
  "str_of_float_ex f = str_of_int f @ ''.0''"

section \<open>Lemmas\<close>

lemma and_then_simps:
  "and_then (Return a, st) f = f a st"
  "and_then (Exit n, st) f = (Exit n, st)"
  "and_then (Raise e, st) f = (Raise e, st)"
  by (simp_all add: and_then_def)

lemma reload_missing:
  "files st (configure_path st) = None \<Longrightarrow> Configure_reload dec enc True st = (Exit 1, st)"
  by (simp add: Configure_reload_def)

lemma tiny_write: "cp_write tiny_parser = tiny_file"
  by code_simp

lemma tiny_read: "cp_read_text tiny_parser tiny_file = (None, tiny_parser)"
  by code_simp

lemma tiny_read_new: "cp_read_text new_ConfigParser tiny_file = (None, tiny_parser)"
  by code_simp

lemma reload_files:
  "files (snd (Configure_reload dec enc True st)) = files st"
  by (simp add: Configure_reload_def split: option.splits prod.splits)

lemma reload_cases:
  "(\<exists>st1. Configure_reload dec enc True st = (Return (), st1))
   \<or> (\<exists>st1. Configure_reload dec enc True st = (Exit 1, st1))
   \<or> (\<exists>e st1. Configure_reload dec enc True st = (Raise e, st1))"
  by (auto simp: Configure_reload_def split: option.splits prod.splits)

lemma reload_ok:
  assumes "files st (configure_path st) = Some content"
    and "dec enc content = Some text"
    and "cp_read_text (config st) text = (None, cp)"
  shows "Configure_reload dec enc fq st = (Return (), st\<lparr>config := cp\<rparr>)"
  using assms by (simp add: Configure_reload_def)









lemma lower_char_idem: "lower_char (lower_char c) = lower_char c"
  by (auto simp: lower_char_def Let_def)

lemma optionxform_idem: "optionxform (optionxform k) = optionxform k"
  by (simp add: optionxform_def lower_def lower_char_idem)

lemma update_new_key:
  "k \<notin> fst ` set d \<Longrightarrow> AList.update k v d = d @ [(k, v)]"
  by (induction d) auto

lemma update_deleted:
  "AList.update k v (AList.delete k d) = AList.delete k d @ [(k, v)]"
  by (rule update_new_key) (rule AList.delete_notin_dom)

lemma delete_append:
  "AList.delete k (xs @ ys) = AList.delete k xs @ AList.delete k ys"
  by (simp add: AList.delete_eq)

lemma delete_keys_Nil [simp]: "delete_keys [] d = d"
  by (simp add: delete_keys_def)

lemma delete_keys_Cons:
  "delete_keys ((k, v) # kvs) d = delete_keys kvs (AList.delete k d)"
  by (induction d) (auto simp: delete_keys_def AList.delete_eq)

lemma delete_keys_snoc:
  "k \<notin> fst ` set kvs \<Longrightarrow> delete_keys kvs (d @ [(k, v)]) = delete_keys kvs d @ [(k, v)]"
  by (simp add: delete_keys_def)

lemma delete_keys_all:
  "fst ` set d \<subseteq> fst ` set kvs \<Longrightarrow> delete_keys kvs d = []"
  by (auto simp: delete_keys_def filter_empty_conv)

lemma dict_update_keys:
  "set (map fst (dict_update d other)) = set (map fst d) \<union> set (map fst other)"
proof -
  have "set (map fst (fold (\<lambda>(k, v) acc. AList.update k v acc) other d))
        = set (map fst d) \<union> set (map fst other)" for d
  proof (induction other arbitrary: d)
    case Nil
    then show ?case by simp
  next
    case (Cons p other)
    obtain k v where p: "p = (k, v)" by (cases p)
    have "fst ` set (AList.update k v d) = {k} \<union> fst ` set d"
      by (rule AList.dom_update)
    with Cons [of "AList.update k v d"] p show ?case by auto
  qed
  then show ?thesis by (simp add: dict_update_def)
qed

lemma dict_update_distinct:
  "distinct (map fst d) \<Longrightarrow> distinct (map fst (dict_update d other))"
proof -
  have "distinct (map fst d) \<Longrightarrow>
        distinct (map fst (fold (\<lambda>(k, v) acc. AList.update k v acc) other d))" for d
  proof (induction other arbitrary: d)
    case Nil
    then show ?case by simp
  next
    case (Cons p other)
    obtain k v where p: "p = (k, v)" by (cases p)
    from Cons.prems have "distinct (map fst (AList.update k v d))"
      by (rule AList.distinct_update)
    from Cons.IH [OF this] p show ?case by simp
  qed
  then show "distinct (map fst d) \<Longrightarrow> distinct (map fst (dict_update d other))"
    by (simp add: dict_update_def)
qed

lemma dict_update_map_of:
  "map_of (dict_update d other) = map_of d ++ map_of (rev other)"
proof -
  have "map_of (fold (\<lambda>(k, v) acc. AList.update k v acc) other d)
        = map_of d ++ map_of (rev other)" for d
  proof (induction other arbitrary: d)
    case Nil
    then show ?case by simp
  next
    case (Cons p other)
    obtain k v where p: "p = (k, v)" by (cases p)
    show ?case
      using Cons [of "AList.update k v d"] p
      by (simp add: AList.update_conv' map_add_def fun_eq_iff split: option.splits)
  qed
  then show ?thesis by (simp add: dict_update_def)
qed

lemma dict_ok_dict_update:
  "dict_ok d \<Longrightarrow> dict_ok other \<Longrightarrow> dict_ok (dict_update d other)"
proof -
  assume a: "dict_ok d" "dict_ok other"
  have "optionxform k = k" if "k \<in> set (map fst (dict_update d other))" for k
  proof -
    from that have "k \<in> set (map fst d) \<union> set (map fst other)"
      by (simp only: dict_update_keys)
    with a show ?thesis by (auto simp: dict_ok_def)
  qed
  moreover have "distinct (map fst (dict_update d other))"
    using a(1) by (simp add: dict_ok_def dict_update_distinct)
  ultimately show ?thesis by (auto simp: dict_ok_def)
qed

lemma items_interpolated_keys:
  "items_interpolated m d = Inr its \<Longrightarrow> map fst its = map fst d"
  by (induction d arbitrary: its) (auto split: sum.splits)

lemma before_set_same: "before_set v = Inr v' \<Longrightarrow> v' = v"
  by (auto simp: before_set_def Let_def split: if_splits)

lemma cp_remove_option_section:
  assumes "sect \<noteq> []" "sect \<noteq> DEFAULTSECT" "map_of (cp_sections cp) sect = Some d"
    and "optionxform k = k"
  shows "cp_remove_option cp sect k
         = Inr (cp\<lparr>cp_sections := AList.update sect (AList.delete k d) (cp_sections cp)\<rparr>)"
  using assms by (simp add: cp_remove_option_def)

lemma cp_set_section:
  assumes "sect \<noteq> []" "sect \<noteq> DEFAULTSECT" "map_of (cp_sections cp) sect = Some d"
    and "optionxform k = k" and "cp_set cp sect k v = Inr cp'"
  shows "cp' = cp\<lparr>cp_sections := AList.update sect (AList.update k v d) (cp_sections cp)\<rparr>"
  using assms
  by (auto simp: cp_set_def split: sum.splits if_splits dest: before_set_same)

lemma resort_section:
  assumes "sect \<noteq> []" "sect \<noteq> DEFAULTSECT"
    and "map_of (cp_sections cp) sect = Some d0"
    and "distinct (map fst kvs)" and "\<forall>k \<in> fst ` set kvs. optionxform k = k"
    and "resort cp sect kvs = (None, cp')"
  shows "cp' = cp\<lparr>cp_sections := AList.update sect (delete_keys kvs d0 @ kvs) (cp_sections cp)\<rparr>"
  using assms(3-)
proof (induction kvs arbitrary: cp d0)
  case Nil
  then show ?case by (simp add: AList.update_triv)
next
  case (Cons kv kvs)
  obtain k v where kv: "kv = (k, v)" by (cases kv)
  from Cons.prems(3) kv have kx: "optionxform k = k" by simp
  define cp1 where
    "cp1 = cp\<lparr>cp_sections := AList.update sect (AList.delete k d0) (cp_sections cp)\<rparr>"
  have rm: "cp_remove_option cp sect k = Inr cp1"
    unfolding cp1_def by (rule cp_remove_option_section [OF assms(1,2) Cons.prems(1) kx])
  have m1: "map_of (cp_sections cp1) sect = Some (AList.delete k d0)"
    by (simp add: cp1_def AList.update_conv')
  from Cons.prems(4) kv rm obtain cp2 where
    st: "cp_set cp1 sect k v = Inr cp2" and rest: "resort cp2 sect kvs = (None, cp')"
    by (auto split: sum.splits)
  have cp2: "cp2 = cp\<lparr>cp_sections :=
      AList.update sect (AList.delete k d0 @ [(k, v)]) (cp_sections cp)\<rparr>"
    using cp_set_section [OF assms(1,2) m1 kx st]
    by (simp add: cp1_def update_deleted)
  have m2: "map_of (cp_sections cp2) sect = Some (AList.delete k d0 @ [(k, v)])"
    by (simp add: cp2 AList.update_conv')
  from Cons.prems(2) kv have d: "distinct (map fst kvs)" and nk: "k \<notin> fst ` set kvs"
    by auto
  from Cons.prems(3) have lw: "\<forall>k \<in> fst ` set kvs. optionxform k = k" by simp
  have "cp' = cp2\<lparr>cp_sections :=
      AList.update sect (delete_keys kvs (AList.delete k d0 @ [(k, v)]) @ kvs) (cp_sections cp2)\<rparr>"
    by (rule Cons.IH [OF m2 d lw rest])
  then show ?case
    by (simp add: cp2 kv delete_keys_Cons delete_keys_snoc [OF nk])
qed

lemma resort_section_all:
  assumes "sect \<noteq> []" "sect \<noteq> DEFAULTSECT"
    and "map_of (cp_sections cp) sect = Some d0"
    and "distinct (map fst kvs)" and "\<forall>k \<in> fst ` set kvs. optionxform k = k"
    and "fst ` set d0 \<subseteq> fst ` set kvs"
    and "resort cp sect kvs = (None, cp')"
  shows "cp' = cp\<lparr>cp_sections := AList.update sect kvs (cp_sections cp)\<rparr>"
  using resort_section [OF assms(1-5) assms(7)] delete_keys_all [OF assms(6)] by simp

lemma map_fst_insort_key:
  "map fst (insort_key fst x xs) = insort (fst x) (map fst xs)"
  by (induction xs) auto

lemma map_fst_sort_key:
  "map fst (sort_key fst xs) = sort (map fst xs)"
  by (induction xs) (auto simp: map_fst_insort_key)

lemma cp_items_section:
  assumes "map_of (cp_sections cp) sect = Some d" and "cp_items cp sect = Inr its"
  shows "items_interpolated (map_of (dict_update (cp_defaults cp) d))
           (dict_update (cp_defaults cp) d) = Inr its"
  using assms by (simp add: cp_items_def)

lemma parser_ok_sectionD:
  assumes "parser_ok cp" and "map_of (cp_sections cp) sect = Some d"
  shows "sect \<noteq> []" "sect \<noteq> DEFAULTSECT" "dict_ok d" "dict_ok (cp_defaults cp)"
proof -
  from assms(2) have "(sect, d) \<in> set (cp_sections cp)" by (rule map_of_SomeD)
  with assms(1) show "sect \<noteq> []" "sect \<noteq> DEFAULTSECT" "dict_ok d" "dict_ok (cp_defaults cp)"
    by (auto simp: parser_ok_def)
qed

lemma set_update_subset:
  "set (AList.update k v xs) \<subseteq> insert (k, v) (set xs)"
  by (induction xs) auto

lemma parser_ok_update_section:
  assumes "parser_ok cp" and "map_of (cp_sections cp) sect = Some d" and "dict_ok d'"
  shows "parser_ok (cp\<lparr>cp_sections := AList.update sect d' (cp_sections cp)\<rparr>)"
proof -
  from assms(2) have "(sect, d) \<in> set (cp_sections cp)" by (rule map_of_SomeD)
  then have mem: "sect \<in> set (map fst (cp_sections cp))" by force
  with assms(1) have ne: "sect \<noteq> []" "sect \<noteq> DEFAULTSECT"
    by (auto simp: parser_ok_def)
  have keys: "map fst (AList.update sect d' (cp_sections cp)) = map fst (cp_sections cp)"
    using mem by (simp add: AList.update_keys)
  have "fst p \<noteq> [] \<and> fst p \<noteq> DEFAULTSECT \<and> dict_ok (snd p)"
    if "p \<in> set (AList.update sect d' (cp_sections cp))" for p
  proof -
    from that set_update_subset [of sect d' "cp_sections cp"]
    have "p = (sect, d') \<or> p \<in> set (cp_sections cp)" by auto
    with assms(1,3) ne show ?thesis by (auto simp: parser_ok_def)
  qed
  with assms(1) keys show ?thesis
    by (simp add: parser_ok_def del: map_map)
qed

lemma save_one:
  assumes ok: "parser_ok cp" and m: "map_of (cp_sections cp) sect = Some d"
    and its: "cp_items cp sect = Inr its"
    and rs: "resort cp sect (sort_key fst its) = (None, cp1)"
  shows "cp1 = cp\<lparr>cp_sections := AList.update sect (sort_key fst its) (cp_sections cp)\<rparr>"
    and "dict_ok (sort_key fst its)"
proof -
  note sD = parser_ok_sectionD [OF ok m]
  let ?d = "dict_update (cp_defaults cp) d"
  have ii: "items_interpolated (map_of ?d) ?d = Inr its"
    by (rule cp_items_section [OF m its])
  have keys: "map fst its = map fst ?d"
    by (rule items_interpolated_keys [OF ii])
  have dok: "dict_ok ?d"
    by (rule dict_ok_dict_update [OF sD(4) sD(3)])
  have k1: "set (map fst (sort_key fst its)) = set (map fst ?d)"
    by (simp add: map_fst_sort_key keys del: map_map)
  have dist: "distinct (map fst (sort_key fst its))"
    using dok by (simp add: map_fst_sort_key keys dict_ok_def del: map_map)
  have low: "\<forall>k \<in> fst ` set (sort_key fst its). optionxform k = k"
  proof
    fix k assume "k \<in> fst ` set (sort_key fst its)"
    then have "k \<in> set (map fst ?d)" using k1 by simp
    then show "optionxform k = k" using dok by (auto simp: dict_ok_def)
  qed
  show "dict_ok (sort_key fst its)"
    using dist low by (auto simp: dict_ok_def)
  have sub: "fst ` set d \<subseteq> fst ` set (sort_key fst its)"
    using k1 dict_update_keys [of "cp_defaults cp" d] by auto
  show "cp1 = cp\<lparr>cp_sections := AList.update sect (sort_key fst its) (cp_sections cp)\<rparr>"
    by (rule resort_section_all [OF sD(1,2) m dist low sub rs])
qed

lemma save_sections_result:
  assumes "parser_ok cp" and "set names \<subseteq> set (map fst (cp_sections cp))"
    and "distinct names" and "save_sections cp names = (None, cp')"
  shows "parser_ok cp' \<and> cp_defaults cp' = cp_defaults cp
       \<and> map fst (cp_sections cp') = map fst (cp_sections cp)
       \<and> (\<forall>n d. map_of (cp_sections cp) n = Some d \<longrightarrow>
             (if n \<in> set names
              then \<exists>its. cp_items cp n = Inr its
                     \<and> map_of (cp_sections cp') n = Some (sort_key fst its)
              else map_of (cp_sections cp') n = Some d))"
  using assms
proof (induction names arbitrary: cp)
  case Nil
  then show ?case by simp
next
  case (Cons s names)
  from Cons.prems(2) obtain d where m: "map_of (cp_sections cp) s = Some d"
    by (cases "map_of (cp_sections cp) s") (auto simp: map_of_eq_None_iff)
  from Cons.prems(4) obtain its cp1 where
    its: "cp_items cp s = Inr its"
    and rs: "resort cp s (sort_key fst its) = (None, cp1)"
    and rest: "save_sections cp1 names = (None, cp')"
    by (auto split: sum.splits prod.splits option.splits)
  note one = save_one [OF Cons.prems(1) m its rs]
  have ok1: "parser_ok cp1"
    unfolding one(1) by (rule parser_ok_update_section [OF Cons.prems(1) m one(2)])
  from m have mem: "s \<in> set (map fst (cp_sections cp))"
    by (force dest: map_of_SomeD)
  have keys1: "map fst (cp_sections cp1) = map fst (cp_sections cp)"
    using mem by (simp add: one(1) AList.update_keys)
  have df1: "cp_defaults cp1 = cp_defaults cp"
    by (simp add: one(1))
  have mo1: "map_of (cp_sections cp1) n = (if n = s then Some (sort_key fst its)
                                           else map_of (cp_sections cp) n)" for n
    by (simp add: one(1) AList.update_conv')
  from Cons.prems(2,3) keys1 have sub: "set names \<subseteq> set (map fst (cp_sections cp1))"
    and dn: "distinct names" and sn: "s \<notin> set names"
    by auto
  note IH = Cons.IH [OF ok1 sub dn rest]
  have items1: "cp_items cp1 n = cp_items cp n" if "n \<noteq> s" for n
    unfolding cp_items_def mo1 df1 using that by simp
  show ?case
  proof (intro conjI allI impI)
    show "parser_ok cp'" using IH by simp
    show "cp_defaults cp' = cp_defaults cp" using IH df1 by simp
    show "map fst (cp_sections cp') = map fst (cp_sections cp)" using IH keys1 by simp
  next
    fix n d' assume nd: "map_of (cp_sections cp) n = Some d'"
    show "if n \<in> set (s # names)
          then \<exists>its. cp_items cp n = Inr its
                 \<and> map_of (cp_sections cp') n = Some (sort_key fst its)
          else map_of (cp_sections cp') n = Some d'"
    proof (cases "n = s")
      case True
      with IH sn mo1 [of s] its show ?thesis by auto
    next
      case False
      with nd mo1 [of n] have "map_of (cp_sections cp1) n = Some d'" by simp
      with IH have "if n \<in> set names
          then \<exists>its. cp_items cp1 n = Inr its
                 \<and> map_of (cp_sections cp') n = Some (sort_key fst its)
          else map_of (cp_sections cp') n = Some d'"
        by blast
      with False items1 [OF False] show ?thesis by (auto split: if_splits)
    qed
  qed
qed

lemma Configure_save_result:
  assumes "parser_ok (config st)" and "Configure_save st = (Return u, st')"
  shows "parser_ok (config st')"
    and "cp_defaults (config st') = cp_defaults (config st)"
    and "map fst (cp_sections (config st')) = map fst (cp_sections (config st))"
    and "map_of (cp_sections (config st)) n = Some d \<Longrightarrow>
           \<exists>its. cp_items (config st) n = Inr its
             \<and> map_of (cp_sections (config st')) n = Some (sort_key fst its)"
    and "st' = st\<lparr>config := config st',
           files := (files st)(configure_path st \<mapsto> cp_write (config st'))\<rparr>"
proof -
  from assms(2) obtain cp' where
    ss: "save_sections (config st) (cp_section_names (config st)) = (None, cp')"
    and st': "st' = st\<lparr>config := cp',
           files := (files st)(configure_path st \<mapsto> cp_write cp')\<rparr>"
    by (auto simp: Configure_save_def split: prod.splits option.splits)
  have dn: "distinct (cp_section_names (config st))"
    using assms(1) by (simp add: parser_ok_def cp_section_names_def)
  have sub: "set (cp_section_names (config st)) \<subseteq> set (map fst (cp_sections (config st)))"
    by (simp add: cp_section_names_def)
  note r = save_sections_result [OF assms(1) sub dn ss]
  have c: "config st' = cp'" by (simp add: st')
  show "parser_ok (config st')" using r c by simp
  show "cp_defaults (config st') = cp_defaults (config st)" using r c by simp
  show "map fst (cp_sections (config st')) = map fst (cp_sections (config st))"
    using r c by simp
  show "st' = st\<lparr>config := config st',
           files := (files st)(configure_path st \<mapsto> cp_write (config st'))\<rparr>"
    using st' by simp
  show "\<exists>its. cp_items (config st) n = Inr its
             \<and> map_of (cp_sections (config st')) n = Some (sort_key fst its)"
    if m: "map_of (cp_sections (config st)) n = Some d"
  proof -
    from m have "n \<in> set (cp_section_names (config st))"
      by (force simp: cp_section_names_def dest: map_of_SomeD)
    with r m c show ?thesis by (auto split: if_splits)
  qed
qed

lemma sectcre_match_nonempty: "sectcre_match v = Some h \<Longrightarrow> h \<noteq> []"
  by (auto simp: sectcre_match_def Let_def split: list.splits if_splits)

lemma sectcre_match_not_empty [simp]: "sectcre_match v \<noteq> Some []"
  using sectcre_match_nonempty [of v "[]"] by auto

lemma map_of_Some_in_keys: "map_of xs k = Some v \<Longrightarrow> k \<in> fst ` set xs"
  by (force dest: map_of_SomeD)

lemma append_value_items_ok:
  "\<forall>it \<in> set (ps_items st). item_ok it \<Longrightarrow> \<forall>it \<in> set (ps_items (append_value st v)). item_ok it"
  by (auto simp: append_value_def item_ok_def split: ini_item.splits)

lemma read_line_items_ok:
  assumes "read_line st line = Inr st'" and "\<forall>it \<in> set (ps_items st). item_ok it"
  shows "\<forall>it \<in> set (ps_items st'). item_ok it"
proof -
  note av = append_value_items_ok [OF assms(2)]
  from assms(1) show ?thesis
    unfolding read_line_def Let_def
    using assms(2) av
    by (auto simp: item_ok_def optionxform_idem
        split: if_splits option.splits prod.splits)
qed

lemma read_lines_items_ok:
  assumes "read_lines st ls = (e, st')" and "\<forall>it \<in> set (ps_items st). item_ok it"
  shows "\<forall>it \<in> set (ps_items st'). item_ok it"
  using assms
proof (induction ls arbitrary: st)
  case Nil
  then show ?case by simp
next
  case (Cons l ls)
  show ?case
  proof (cases "read_line st l")
    case (Inl x)
    with Cons.prems show ?thesis by simp
  next
    case (Inr st1)
    with Cons.prems have "read_lines st1 ls = (e, st')" by simp
    moreover from Inr Cons.prems(2) have "\<forall>it \<in> set (ps_items st1). item_ok it"
      by (rule read_line_items_ok)
    ultimately show ?thesis by (rule Cons.IH)
  qed
qed

lemma ini_items_ok:
  assumes "ini_items text = (e, its)"
  shows "\<forall>it \<in> set its. item_ok it"
proof -
  obtain e' st where r: "read_lines initial_parse_state (file_lines text) = (e', st)"
    by (cases "read_lines initial_parse_state (file_lines text)")
  have "\<forall>it \<in> set (ps_items initial_parse_state). item_ok it"
    by (simp add: initial_parse_state_def)
  with r have "\<forall>it \<in> set (ps_items st). item_ok it"
    by (rule read_lines_items_ok)
  with assms r show ?thesis
    by (auto simp: ini_items_def split: option.splits)
qed

lemma dict_ok_update:
  "dict_ok d \<Longrightarrow> optionxform k = k \<Longrightarrow> dict_ok (AList.update k v d)"
  using set_update_subset [of k v d]
  by (auto simp: dict_ok_def AList.distinct_update)

lemma parser_ok_append_section:
  assumes "parser_ok cp" and "map_of (cp_sections cp) n = None" and "n \<noteq> []" and "n \<noteq> DEFAULTSECT"
  shows "parser_ok (cp\<lparr>cp_sections := cp_sections cp @ [(n, [])]\<rparr>)"
proof -
  from assms(2) have "n \<notin> fst ` set (cp_sections cp)"
    by (simp add: map_of_eq_None_iff)
  with assms(1,3,4) show ?thesis
    by (auto simp: parser_ok_def dict_ok_def)
qed

lemma store_item_ok:
  assumes "parser_ok cp" and "item_ok it"
  shows "parser_ok (store_item it cp)"
proof (cases it)
  case (Header n)
  with assms show ?thesis
    by (auto simp: item_ok_def intro: parser_ok_append_section)
next
  case (Opt sn k ls)
  with assms(2) have kx: "optionxform k = k" by (simp add: item_ok_def)
  show ?thesis
  proof (cases "map_of (cp_sections cp) sn")
    case None
    with Opt assms(1) kx show ?thesis
      by (simp add: parser_ok_def dict_ok_update)
  next
    case (Some d)
    from parser_ok_sectionD(3) [OF assms(1) Some] kx
    have "dict_ok (AList.update k (rstrip (join_lines ls)) d)"
      by (rule dict_ok_update)
    from parser_ok_update_section [OF assms(1) Some this] Opt Some show ?thesis
      by simp
  qed
qed

lemma fold_store_item_ok:
  "parser_ok cp \<Longrightarrow> \<forall>it \<in> set its. item_ok it \<Longrightarrow> parser_ok (fold store_item its cp)"
  by (induction its arbitrary: cp) (auto intro: store_item_ok)

lemma cp_read_text_ok:
  assumes "parser_ok cp" and "cp_read_text cp text = (e, cp')"
  shows "parser_ok cp'"
proof -
  obtain e' its where i: "ini_items text = (e', its)" by (cases "ini_items text")
  with assms(2) have "cp' = fold store_item its cp" by (simp add: cp_read_text_def)
  with fold_store_item_ok [OF assms(1) ini_items_ok [OF i]] show ?thesis by simp
qed

lemma in_section_update:
  "in_section (cp\<lparr>cp_sections := AList.update n d' (cp_sections cp)\<rparr>) sect k
   = (if sect = n then k \<in> fst ` set d' else in_section cp sect k)"
  by (simp add: in_section_def AList.update_conv')

lemma store_item_keeps:
  assumes "in_section cp sect k"
  shows "in_section (store_item it cp) sect k"
proof (cases it)
  case (Header n)
  with assms show ?thesis
    by (auto simp: in_section_def split: option.splits dest: map_of_Some_in_keys)
next
  case (Opt sn k' ls)
  show ?thesis
  proof (cases "map_of (cp_sections cp) sn")
    case None
    with Opt assms show ?thesis by (simp add: in_section_def)
  next
    case (Some d)
    have "in_section (cp\<lparr>cp_sections :=
        AList.update sn (AList.update k' (rstrip (join_lines ls)) d) (cp_sections cp)\<rparr>) sect k"
    proof (cases "sect = sn")
      case True
      with assms Some have "k \<in> fst ` set d" by (simp add: in_section_def)
      with True show ?thesis by (simp add: in_section_update AList.dom_update)
    next
      case False
      with assms show ?thesis by (simp add: in_section_update)
    qed
    with Opt Some show ?thesis by simp
  qed
qed

lemma cp_read_text_keeps:
  assumes "in_section cp sect k" and "cp_read_text cp text = (e, cp')"
  shows "in_section cp' sect k"
proof -
  have "in_section cp sect k \<Longrightarrow> in_section (fold store_item its cp) sect k" for its cp
    by (induction its arbitrary: cp) (auto intro: store_item_keeps)
  with assms show ?thesis
    by (auto simp: cp_read_text_def split: prod.splits)
qed

lemma cp_set_ok:
  assumes "parser_ok cp" and "cp_set cp sect k v = Inr cp'"
  shows "parser_ok cp'"
proof (cases "sect = [] \<or> sect = DEFAULTSECT")
  case True
  with assms show ?thesis
    by (auto simp: cp_set_def parser_ok_def dict_ok_update optionxform_idem split: sum.splits)
next
  case False
  with assms(2) obtain d v' where
    m: "map_of (cp_sections cp) sect = Some d"
    and c: "cp' = cp\<lparr>cp_sections := AList.update sect (AList.update (optionxform k) v' d) (cp_sections cp)\<rparr>"
    by (auto simp: cp_set_def split: sum.splits option.splits)
  have "dict_ok (AList.update (optionxform k) v' d)"
    by (rule dict_ok_update [OF parser_ok_sectionD(3) [OF assms(1) m] optionxform_idem])
  from parser_ok_update_section [OF assms(1) m this] c show ?thesis by simp
qed

lemma update_section_keeps:
  assumes "in_section cp n j" and "map_of (cp_sections cp) sect = Some d"
    and "fst ` set d \<subseteq> fst ` set d'"
  shows "in_section (cp\<lparr>cp_sections := AList.update sect d' (cp_sections cp)\<rparr>) n j"
proof (cases "n = sect")
  case True
  with assms(1,2) have "j \<in> fst ` set d" by (simp add: in_section_def)
  with assms(3) True show ?thesis by (auto simp: in_section_update)
next
  case False
  with assms(1) show ?thesis by (simp add: in_section_update)
qed

lemma cp_set_keeps:
  assumes "in_section cp n j" and "cp_set cp sect k v = Inr cp'"
  shows "in_section cp' n j"
proof (cases "sect = [] \<or> sect = DEFAULTSECT")
  case True
  with assms show ?thesis
    by (auto simp: cp_set_def in_section_def split: sum.splits)
next
  case False
  with assms(2) obtain d v' where
    m: "map_of (cp_sections cp) sect = Some d"
    and c: "cp' = cp\<lparr>cp_sections := AList.update sect (AList.update (optionxform k) v' d) (cp_sections cp)\<rparr>"
    by (auto simp: cp_set_def split: sum.splits option.splits)
  have "fst ` set d \<subseteq> fst ` set (AList.update (optionxform k) v' d)"
    by (auto simp: AList.dom_update)
  from update_section_keeps [OF assms(1) m this] c show ?thesis by simp
qed

lemma cp_set_adds:
  assumes "sect \<noteq> []" "sect \<noteq> DEFAULTSECT" and "cp_set cp sect k v = Inr cp'"
  shows "in_section cp' sect (optionxform k)"
proof -
  from assms obtain d v' where
    c: "cp' = cp\<lparr>cp_sections := AList.update sect (AList.update (optionxform k) v' d) (cp_sections cp)\<rparr>"
    by (auto simp: cp_set_def split: sum.splits option.splits)
  show ?thesis
    unfolding c by (simp add: in_section_update AList.dom_update)
qed

lemma cp_add_section_ok:
  assumes "parser_ok cp" and "cp_add_section cp sect = Inr cp'" and "sect \<noteq> []"
  shows "parser_ok cp'"
  using assms
  by (auto simp: cp_add_section_def split: if_splits intro: parser_ok_append_section)

lemma cp_add_section_keeps:
  assumes "in_section cp n j" and "cp_add_section cp sect = Inr cp'"
  shows "in_section cp' n j"
  using assms
  by (auto simp: cp_add_section_def in_section_def split: if_splits option.splits
      dest: map_of_Some_in_keys)

lemma and_then_Return:
  assumes "and_then m f = (Return b, st')"
  obtains a st1 where "m = (Return a, st1)" and "f a st1 = (Return b, st')"
  using assms by (cases m; cases "fst m") (auto simp: and_then_def)

lemma reload_Return:
  assumes "Configure_reload dec enc True st = (Return u, st1)"
  obtains content tx where "files st (configure_path st) = Some content"
    and "dec enc content = Some tx"
    and "cp_read_text (config st) tx = (None, config st1)"
    and "st1 = st\<lparr>config := config st1\<rparr>"
  using assms
  by (auto simp: Configure_reload_def split: option.splits prod.splits)

lemma cp_items_keys:
  assumes "map_of (cp_sections cp) n = Some d" and "cp_items cp n = Inr its"
  shows "set (map fst its) = set (map fst (cp_defaults cp)) \<union> set (map fst d)"
  using items_interpolated_keys [OF cp_items_section [OF assms]]
    dict_update_keys [of "cp_defaults cp" d]
  by simp

lemma save_keeps:
  assumes "parser_ok (config st)" and "Configure_save st = (Return u, st')"
    and "in_section (config st) n j"
  shows "in_section (config st') n j"
proof -
  from assms(3) obtain d where m: "map_of (cp_sections (config st)) n = Some d"
    and j: "j \<in> fst ` set d"
    by (auto simp: in_section_def split: option.splits)
  from Configure_save_result(4) [OF assms(1,2) m] obtain its where
    i: "cp_items (config st) n = Inr its"
    and m': "map_of (cp_sections (config st')) n = Some (sort_key fst its)"
    by blast
  from cp_items_keys [OF m i] j have "j \<in> fst ` set its" by auto
  with m' show ?thesis by (simp add: in_section_def)
qed

lemma write_Return:
  assumes "Configure_write dec sect key v store st = (Return u, st')"
  obtains st1 cp2 where "Configure_reload dec ''UTF-8'' True st = (Return (), st1)"
    and "sect \<noteq> []" and "key \<noteq> []"
    and "cp_set (config st1) sect key v = Inr cp2
         \<or> (cp_set (config st1) sect key v = Inl NoSectionError
            \<and> (\<exists>cp1. cp_add_section (config st1) sect = Inr cp1 \<and> cp_set cp1 sect key v = Inr cp2))"
    and "if store then Configure_save (st1\<lparr>config := cp2\<rparr>) = (Return (), st')
         else st' = st1\<lparr>config := cp2\<rparr>"
proof -
  from assms obtain u1 st1 where
    r: "Configure_reload dec ''UTF-8'' True st = (Return u1, st1)"
    and b: "(if sect = [] \<or> key = [] then (Exit 1, st1)
       else
         and_then
           (case cp_set (config st1) sect key v of
              Inr cp \<Rightarrow> (Return (), st1\<lparr>config := cp\<rparr>)
            | Inl e \<Rightarrow>
                if e = NoSectionError then
                  (case cp_add_section (config st1) sect of
                     Inl e' \<Rightarrow> (Raise e', st1)
                   | Inr cp1 \<Rightarrow>
                       (case cp_set cp1 sect key v of
                          Inl e' \<Rightarrow> (Raise e', st1\<lparr>config := cp1\<rparr>)
                        | Inr cp2 \<Rightarrow> (Return (), st1\<lparr>config := cp2\<rparr>)))
                else (Raise e, st1))
           (\<lambda>u st2. if store then Configure_save st2 else (Return (), st2))) = (Return u, st')"
    unfolding Configure_write_def by (rule and_then_Return)
  from b have ne: "sect \<noteq> []" "key \<noteq> []" by (auto split: if_splits)
  with b obtain u2 st2 where
    s: "(case cp_set (config st1) sect key v of
              Inr cp \<Rightarrow> (Return (), st1\<lparr>config := cp\<rparr>)
            | Inl e \<Rightarrow>
                if e = NoSectionError then
                  (case cp_add_section (config st1) sect of
                     Inl e' \<Rightarrow> (Raise e', st1)
                   | Inr cp1 \<Rightarrow>
                       (case cp_set cp1 sect key v of
                          Inl e' \<Rightarrow> (Raise e', st1\<lparr>config := cp1\<rparr>)
                        | Inr cp2 \<Rightarrow> (Return (), st1\<lparr>config := cp2\<rparr>)))
                else (Raise e, st1)) = (Return u2, st2)"
    and f: "(if store then Configure_save st2 else (Return (), st2)) = (Return u, st')"
    by (auto elim: and_then_Return)
  from s have "\<exists>cp2. st2 = st1\<lparr>config := cp2\<rparr> \<and>
      (cp_set (config st1) sect key v = Inr cp2
         \<or> (cp_set (config st1) sect key v = Inl NoSectionError
            \<and> (\<exists>cp1. cp_add_section (config st1) sect = Inr cp1 \<and> cp_set cp1 sect key v = Inr cp2)))"
    by (auto split: sum.splits if_splits)
  then obtain cp2 where st2: "st2 = st1\<lparr>config := cp2\<rparr>"
    and c: "cp_set (config st1) sect key v = Inr cp2
         \<or> (cp_set (config st1) sect key v = Inl NoSectionError
            \<and> (\<exists>cp1. cp_add_section (config st1) sect = Inr cp1 \<and> cp_set cp1 sect key v = Inr cp2))"
    by blast
  from f st2 have "if store then Configure_save (st1\<lparr>config := cp2\<rparr>) = (Return (), st')
         else st' = st1\<lparr>config := cp2\<rparr>"
    by (auto split: if_splits)
  with r ne c show thesis by (auto intro: that)
qed

lemma write_keeps_ok:
  assumes "parser_ok (config st)"
    and "Configure_write dec sect key v store st = (Return u, st')"
  shows "parser_ok (config st')"
    and "in_section (config st) n j \<Longrightarrow> in_section (config st') n j"
    and "sect \<noteq> DEFAULTSECT \<Longrightarrow> in_section (config st') sect (optionxform key)"
proof -
  from assms(2) obtain st1 cp2 where
    r: "Configure_reload dec ''UTF-8'' True st = (Return (), st1)"
    and ne: "sect \<noteq> []" "key \<noteq> []"
    and c: "cp_set (config st1) sect key v = Inr cp2
         \<or> (cp_set (config st1) sect key v = Inl NoSectionError
            \<and> (\<exists>cp1. cp_add_section (config st1) sect = Inr cp1 \<and> cp_set cp1 sect key v = Inr cp2))"
    and f: "if store then Configure_save (st1\<lparr>config := cp2\<rparr>) = (Return (), st')
         else st' = st1\<lparr>config := cp2\<rparr>"
    by (rule write_Return)
  from r obtain tx where rt: "cp_read_text (config st) tx = (None, config st1)"
    by (rule reload_Return)
  have ok1: "parser_ok (config st1)"
    by (rule cp_read_text_ok [OF assms(1) rt])
  have ok2: "parser_ok cp2"
    using c ok1 ne by (auto intro: cp_set_ok cp_add_section_ok)
  have ok2': "parser_ok (config (st1\<lparr>config := cp2\<rparr>))" using ok2 by simp
  show "parser_ok (config st')"
  proof (cases store)
    case True
    with f have "Configure_save (st1\<lparr>config := cp2\<rparr>) = (Return (), st')" by simp
    from Configure_save_result(1) [OF ok2' this] show ?thesis .
  next
    case False
    with f ok2 show ?thesis by simp
  qed
  have fin: "in_section (config st') a b" if "in_section cp2 a b" for a b
  proof (cases store)
    case True
    with f have "Configure_save (st1\<lparr>config := cp2\<rparr>) = (Return (), st')" by simp
    from save_keeps [OF ok2' this] that show ?thesis by simp
  next
    case False
    with f that show ?thesis by simp
  qed
  show "in_section (config st') n j" if "in_section (config st) n j"
  proof -
    from that rt have "in_section (config st1) n j" by (rule cp_read_text_keeps)
    with c have "in_section cp2 n j"
      by (auto intro: cp_set_keeps cp_add_section_keeps)
    then show ?thesis by (rule fin)
  qed
  show "in_section (config st') sect (optionxform key)" if "sect \<noteq> DEFAULTSECT"
  proof -
    from c ne(1) that have "in_section cp2 sect (optionxform key)"
      by (auto intro: cp_set_adds)
    then show ?thesis by (rule fin)
  qed
qed

lemma sorted_order:
  fixes a b :: "'a :: linorder"
  assumes "sorted xs" and "a \<in> set xs" and "b \<in> set xs" and "a < b"
  shows "\<exists>pre mid post. xs = pre @ a # mid @ b # post"
proof -
  from assms(2) obtain pre rest where xs: "xs = pre @ a # rest"
    by (auto simp: in_set_conv_decomp)
  have "b \<notin> set pre"
  proof
    assume "b \<in> set pre"
    with assms(1) xs have "b \<le> a" by (auto simp: sorted_append)
    with assms(4) show False by simp
  qed
  with assms(3,4) xs have "b \<in> set rest" by auto
  then obtain mid post where "rest = mid @ b # post"
    by (auto simp: in_set_conv_decomp)
  with xs show ?thesis by blast
qed

lemma a_less_b: "''a'' < ''b''"
  by simp

lemma save_sorted_sections:
  assumes "parser_ok (config st)" and "Configure_save st = (Return u, st')"
    and "p \<in> set (cp_sections (config st'))"
  shows "sorted (map fst (snd p))"
proof -
  obtain n d' where p: "p = (n, d')" by (cases p)
  note r = Configure_save_result [OF assms(1,2)]
  from assms(3) p have "n \<in> set (map fst (cp_sections (config st')))" by force
  with r(3) have "n \<in> set (map fst (cp_sections (config st)))" by simp
  then obtain d where m: "map_of (cp_sections (config st)) n = Some d"
    by (cases "map_of (cp_sections (config st)) n") (auto simp: map_of_eq_None_iff)
  from r(4) [OF m] obtain its where
    m': "map_of (cp_sections (config st')) n = Some (sort_key fst its)"
    by blast
  from r(1) have "distinct (map fst (cp_sections (config st')))"
    by (simp add: parser_ok_def)
  with assms(3) p have "map_of (cp_sections (config st')) n = Some d'"
    by (simp add: map_of_is_SomeI)
  with m' have "d' = sort_key fst its" by simp
  then have "map fst d' = sort (map fst its)" by (simp add: map_fst_sort_key)
  with p show ?thesis by simp
qed

lemma empty_store_ok: "parser_ok (config empty_store)" by code_simp

lemma wrote_b_returns: "fst (Configure_write utf8_only ''sec'' ''b'' ''2'' False empty_store) = Return ()" by code_simp

lemma wrote_b_a_returns: "fst (Configure_write utf8_only ''sec'' ''a'' ''1'' False wrote_b) = Return ()" by code_simp

lemma saved_b_a_returns: "fst (Configure_save wrote_b_a) = Return ()" by code_simp

lemma wrote_b_a_sections: "cp_sections (config wrote_b_a) = [(''sec'', [(''b'', ''2''), (''a'', ''1'')])]" by code_simp

lemma saved_b_a_sections: "cp_sections (config saved_b_a) = [(''sec'', [(''a'', ''1''), (''b'', ''2'')])]" by code_simp

lemma saved_b_a_file: "files saved_b_a ''config.ini'' = Some (''[sec]'' @ [NL] @ ''a = 1'' @ [NL] @ ''b = 2'' @ [NL, NL])" by code_simp

section \<open>Writing a parser and reading it back\<close>

lemma lstrip_id: "s = [] \<or> \<not> isspace (hd s) \<Longrightarrow> lstrip s = s"
  by (cases s) (auto simp: lstrip_def)

lemma rstrip_id: "s = [] \<or> \<not> isspace (last s) \<Longrightarrow> rstrip s = s"
proof (cases s rule: rev_cases)
  case Nil
  then show ?thesis by (simp add: rstrip_def)
next
  case (snoc xs x)
  assume "s = [] \<or> \<not> isspace (last s)"
  with snoc show ?thesis by (simp add: rstrip_def)
qed

lemma rstrip_snoc_space: "isspace c \<Longrightarrow> rstrip (s @ [c]) = rstrip s"
  by (simp add: rstrip_def)

lemma strip_id: "no_blank_ends s \<Longrightarrow> strip s = s"
  by (auto simp: strip_def no_blank_ends_def lstrip_id rstrip_id)

lemma isspace_simps [simp]:
  "isspace NL" "isspace CHR '' ''" "\<not> isspace CHR ''=''" "\<not> isspace CHR ''[''" "\<not> isspace CHR '']''"
  by (simp_all add: isspace_def NL_def)

lemma strip_header: "strip (''['' @ n @ '']'') = ''['' @ n @ '']''"
  by (rule strip_id) (simp add: no_blank_ends_def)

lemma sectcre_match_header: "n \<noteq> [] \<Longrightarrow> sectcre_match (''['' @ n @ '']'') = Some n"
  by (simp add: sectcre_match_def)

lemma read_line_header:
  assumes "n \<noteq> []" and "n = DEFAULTSECT \<or> Header n \<notin> set (ps_items st)"
  shows "read_line st (''['' @ n @ '']'')
         = Inr (st\<lparr>ps_indent_level := 0, ps_items := ps_items st @ [Header n],
                   ps_sectname := Some n, ps_optname := None\<rparr>)"
proof -
  have nc: "\<not> startswith (''['' @ n @ '']'') ''#''" "\<not> startswith (''['' @ n @ '']'') '';''"
    by (simp_all add: startswith_def)
  have ne: "''['' @ n @ '']'' \<noteq> []" by simp
  have ind: "length (takeWhile isspace (''['' @ n @ '']'')) = 0" by simp
  show ?thesis
    unfolding read_line_def strip_header Let_def
    using assms nc ne ind sectcre_match_header [OF assms(1)]
    by (auto simp del: append.simps)
qed

lemma clean_key_facts:
  assumes "clean_key k"
  shows "k \<noteq> []" "\<not> isspace (hd k)" "\<not> isspace (last k)" "optionxform k = k"
    "hd k \<noteq> CHR ''#''" "hd k \<noteq> CHR '';''" "hd k \<noteq> CHR ''[''"
    "\<And>c. c \<in> set k \<Longrightarrow> \<not> is_delimiter c"
proof -
  from assms have a: "k \<noteq> []" "optionxform k = k" "no_blank_ends k"
    "hd k \<noteq> CHR ''#''" "hd k \<noteq> CHR '';''" "hd k \<noteq> CHR ''[''"
    "\<forall>c \<in> set k. \<not> is_delimiter c \<and> c \<noteq> NL \<and> c \<noteq> CR"
    unfolding clean_key_def by blast+
  from a(1,3) show "\<not> isspace (hd k)" "\<not> isspace (last k)"
    unfolding no_blank_ends_def by blast+
  from a show "k \<noteq> []" "optionxform k = k" "hd k \<noteq> CHR ''#''" "hd k \<noteq> CHR '';''"
    "hd k \<noteq> CHR ''[''" by blast+
  from a(7) show "\<And>c. c \<in> set k \<Longrightarrow> \<not> is_delimiter c" by blast
qed

lemma clean_value_facts:
  assumes "clean_value v"
  shows "v \<noteq> [] \<Longrightarrow> \<not> isspace (hd v)" "v \<noteq> [] \<Longrightarrow> \<not> isspace (last v)"
    "strip v = v" "rstrip v = v"
proof -
  from assms have a: "no_blank_ends v"
    unfolding clean_value_def by blast
  then show "v \<noteq> [] \<Longrightarrow> \<not> isspace (hd v)" "v \<noteq> [] \<Longrightarrow> \<not> isspace (last v)"
    unfolding no_blank_ends_def by blast+
  from a show "strip v = v" by (rule strip_id)
  from a have "v = [] \<or> \<not> isspace (last v)"
    unfolding no_blank_ends_def by blast
  then show "rstrip v = v" by (rule rstrip_id)
qed

lemma strip_item_line:
  assumes "clean_key k" and "clean_value v"
  shows "strip (k @ '' = '' @ v) = k @ '' ='' @ item_tail v"
proof -
  note kf = clean_key_facts [OF assms(1)]
  note vf = clean_value_facts [OF assms(2)]
  have l: "lstrip (k @ '' = '' @ v) = k @ '' = '' @ v"
    using kf(1,2) by (intro lstrip_id) simp
  show ?thesis
  proof (cases "v = []")
    case True
    have "rstrip ((k @ '' ='') @ [CHR '' '']) = rstrip (k @ '' ='')"
      by (rule rstrip_snoc_space) simp
    also have "\<dots> = k @ '' =''"
      by (rule rstrip_id) simp
    finally show ?thesis
      using True l by (simp add: strip_def item_tail_def)
  next
    case False
    then have "rstrip (k @ '' = '' @ v) = k @ '' = '' @ v"
      using vf(2) by (intro rstrip_id) simp
    with False l show ?thesis by (simp add: strip_def item_tail_def)
  qed
qed

lemma strip_item_tail:
  assumes "clean_value v"
  shows "strip (item_tail v) = v"
proof (cases v)
  case Nil
  then show ?thesis by (simp add: item_tail_def strip_def lstrip_def rstrip_def)
next
  case (Cons c cs)
  with clean_value_facts(1) [OF assms] have "\<not> isspace c" by simp
  then have "lstrip (CHR '' '' # v) = v"
    unfolding Cons lstrip_def by simp
  with Cons clean_value_facts(4) [OF assms] show ?thesis
    by (simp add: item_tail_def strip_def)
qed

lemma not_delimiter_space [simp]: "\<not> is_delimiter CHR '' ''" "is_delimiter CHR ''=''"
  by (simp_all add: is_delimiter_def)

lemma optcre_match_item:
  assumes "clean_key k"
  shows "optcre_match (k @ '' ='' @ tl') = Some (k, tl')"
proof -
  note kf = clean_key_facts [OF assms]
  have nd: "\<And>x. x \<in> set (k @ '' '') \<Longrightarrow> \<not> is_delimiter x"
    using kf(8) by auto
  have w: "k @ '' ='' @ tl' = (k @ '' '') @ (CHR ''='' # tl')" by simp
  have d: "dropWhile (\<lambda>x. \<not> is_delimiter x) (k @ '' ='' @ tl') = CHR ''='' # tl'"
    unfolding w using nd by (subst dropWhile_append2) auto
  have t: "takeWhile (\<lambda>x. \<not> is_delimiter x) (k @ '' ='' @ tl') = k @ '' ''"
    unfolding w using nd by (subst takeWhile_append2) auto
  have "rstrip (k @ [CHR '' '']) = rstrip k"
    by (rule rstrip_snoc_space) simp
  also have "\<dots> = k" using kf(1,3) by (intro rstrip_id) simp
  finally have r: "rstrip (k @ '' '') = k" by simp
  show ?thesis
    unfolding optcre_match_def d t r by simp
qed

lemma read_line_item:
  assumes "clean_key k" and "clean_value v" and "ps_sectname st = Some sn"
    and "\<not> list_ex (is_opt_of sn k) (ps_items st)"
  shows "read_line st (k @ '' = '' @ v)
         = Inr (st\<lparr>ps_indent_level := 0, ps_items := ps_items st @ [Opt sn k [v]],
                   ps_optname := Some k\<rparr>)"
proof -
  note kf = clean_key_facts [OF assms(1)]
  let ?w = "k @ '' ='' @ item_tail v"
  from kf(1) obtain c cs where k: "k = c # cs" by (cases k) auto
  with kf have c: "\<not> isspace c" "c \<noteq> CHR ''#''" "c \<noteq> CHR '';''" "c \<noteq> CHR ''[''"
    by simp_all
  have nc: "\<not> startswith ?w ''#''" "\<not> startswith ?w '';''"
    using c by (simp_all add: startswith_def k)
  have ne: "?w \<noteq> []" using kf(1) by simp
  have ind: "length (takeWhile isspace (k @ '' = '' @ v)) = 0"
    using c by (simp add: k)
  have sm: "sectcre_match ?w = None"
    using c by (simp add: sectcre_match_def k)
  have om: "optcre_match ?w = Some (k, item_tail v)"
    by (rule optcre_match_item [OF assms(1)])
  have rk: "rstrip k = k" using kf(1,3) by (intro rstrip_id) simp
  show ?thesis
    unfolding read_line_def strip_item_line [OF assms(1,2)] Let_def
    using nc ne ind sm om assms(3,4) kf(1,4) rk strip_item_tail [OF assms(2)]
    by (simp del: append.simps)
qed

lemma read_line_empty:
  "read_line st [] = Inr (if in_option st then append_value st [] else st)"
  by (simp add: read_line_def strip_def lstrip_def rstrip_def startswith_def)

lemma rstrip_idem: "rstrip (rstrip s) = rstrip s"
  by (simp add: rstrip_def)

lemma store_item_joined: "store_item (joined it) cp = store_item it cp"
  by (cases it) (simp_all add: joined_def rstrip_idem)

lemma fold_store_item_joined: "fold store_item (map joined its) cp = fold store_item its cp"
  by (induction its arbitrary: cp) (simp_all add: store_item_joined)

lemma join_lines_snoc: "ls \<noteq> [] \<Longrightarrow> join_lines (ls @ [x]) = join_lines ls @ [NL] @ x"
proof (induction ls)
  case Nil
  then show ?case by simp
next
  case (Cons l ls)
  show ?case
  proof (cases ls)
    case Nil
    then show ?thesis by simp
  next
    case (Cons m ms)
    with Cons.IH have "join_lines (ls @ [x]) = join_lines ls @ [NL] @ x" by simp
    with Cons show ?thesis by simp
  qed
qed

lemma rstrip_join_snoc_empty: "rstrip (join_lines (ls @ [[]])) = rstrip (join_lines ls)"
proof (cases "ls = []")
  case True
  then show ?thesis by simp
next
  case False
  then have "join_lines (ls @ [[]]) = join_lines ls @ [NL]"
    by (simp add: join_lines_snoc)
  then show ?thesis by (simp add: rstrip_snoc_space)
qed

lemma joined_append_empty:
  "map joined (ps_items (append_value st [])) = map joined (ps_items st)"
proof -
  have "joined (case it of Header n \<Rightarrow> Header n
                 | Opt sn k ls \<Rightarrow> if Some sn = a \<and> Some k = b then Opt sn k (ls @ [[]]) else Opt sn k ls)
        = joined it" for it a b
    by (cases it) (simp_all add: joined_def rstrip_join_snoc_empty)
  then show ?thesis
    by (simp add: append_value_def)
qed

lemma joined_is_opt_of [simp]: "is_opt_of sn k (joined it) = is_opt_of sn k it"
  by (cases it) (simp_all add: joined_def is_opt_of_def)

lemma joined_Header [simp]: "joined it = Header n \<longleftrightarrow> it = Header n"
  by (cases it) (simp_all add: joined_def)

lemma joined_Header' [simp]: "Header n = joined it \<longleftrightarrow> it = Header n"
  by (cases it) (auto simp: joined_def)

lemma Header_in_joined: "Header n \<in> set (map joined its) \<longleftrightarrow> Header n \<in> set its"
  by (induction its) auto

lemma list_ex_joined: "list_ex (is_opt_of sn k) (map joined its) = list_ex (is_opt_of sn k) its"
  by (induction its) auto

lemma read_lines_append:
  "read_lines st (xs @ ys) =
     (case read_lines st xs of (None, st') \<Rightarrow> read_lines st' ys | (Some e, st') \<Rightarrow> (Some e, st'))"
  by (induction xs arbitrary: st) (auto split: sum.splits)

lemma read_option_lines:
  assumes "distinct (map fst d)" and "\<forall>p \<in> set d. clean_key (fst p) \<and> clean_value (snd p)"
    and "ps_sectname st = Some sn"
    and "\<forall>p \<in> set d. \<not> list_ex (is_opt_of sn (fst p)) (ps_items st)"
  shows "\<exists>st'. read_lines st (map item_line d) = (None, st')
           \<and> ps_items st' = ps_items st @ map (\<lambda>kv. Opt sn (fst kv) [snd kv]) d
           \<and> ps_sectname st' = Some sn \<and> ps_e st' = ps_e st"
  using assms
proof (induction d arbitrary: st)
  case Nil
  then show ?case by simp
next
  case (Cons p d)
  obtain k v where p: "p = (k, v)" by (cases p)
  from Cons.prems(2) p have ck: "clean_key k" and cv: "clean_value v" by simp_all
  from Cons.prems(4) p have nd: "\<not> list_ex (is_opt_of sn k) (ps_items st)" by simp
  define st1 where "st1 = st\<lparr>ps_indent_level := 0, ps_items := ps_items st @ [Opt sn k [v]],
                   ps_optname := Some k\<rparr>"
  have rl: "read_line st (item_line p) = Inr st1"
    unfolding item_line_def st1_def p fst_conv snd_conv
    by (rule read_line_item [OF ck cv Cons.prems(3) nd])
  have d1: "distinct (map fst d)" using Cons.prems(1) by simp
  have c1: "\<forall>p \<in> set d. clean_key (fst p) \<and> clean_value (snd p)"
    using Cons.prems(2) by simp
  have s1: "ps_sectname st1 = Some sn" using Cons.prems(3) by (simp add: st1_def)
  have n1: "\<forall>q \<in> set d. \<not> list_ex (is_opt_of sn (fst q)) (ps_items st1)"
  proof
    fix q assume q: "q \<in> set d"
    with Cons.prems(4) have "\<not> list_ex (is_opt_of sn (fst q)) (ps_items st)" by simp
    moreover from q Cons.prems(1) p have "fst q \<noteq> k" by force
    ultimately show "\<not> list_ex (is_opt_of sn (fst q)) (ps_items st1)"
      by (simp add: st1_def is_opt_of_def)
  qed
  from Cons.IH [OF d1 c1 s1 n1] obtain st' where
    r: "read_lines st1 (map item_line d) = (None, st')"
    and i: "ps_items st' = ps_items st1 @ map (\<lambda>kv. Opt sn (fst kv) [snd kv]) d"
    and s: "ps_sectname st' = Some sn" and e: "ps_e st' = ps_e st1"
    by blast
  have "read_lines st (map item_line (p # d)) = (None, st')"
    using rl r by simp
  moreover have "ps_items st' = ps_items st @ map (\<lambda>kv. Opt sn (fst kv) [snd kv]) (p # d)"
    using i by (simp add: st1_def p)
  moreover have "ps_e st' = ps_e st" using e by (simp add: st1_def)
  ultimately show ?case using s by blast
qed

lemma item_section_joined [simp]: "item_section (joined it) = item_section it"
  by (cases it) (simp_all add: joined_def item_section_def)

lemma item_section_section_items:
  "it \<in> set (section_items n d) \<Longrightarrow> item_section it = n"
  by (auto simp: section_items_def item_section_def)

lemma is_opt_of_section: "is_opt_of n k it \<Longrightarrow> item_section it = n"
  by (cases it) (simp_all add: is_opt_of_def item_section_def)

lemma clean_dict_facts:
  assumes "clean_dict d"
  shows "distinct (map fst d)" "\<forall>p \<in> set d. clean_key (fst p) \<and> clean_value (snd p)"
  using assms unfolding clean_dict_def by blast+

lemma joined_clean_items:
  assumes "\<forall>p \<in> set d. clean_key (fst p) \<and> clean_value (snd p)"
  shows "map joined (map (\<lambda>kv. Opt n (fst kv) [snd kv]) d) = map (\<lambda>kv. Opt n (fst kv) [snd kv]) d"
proof -
  have "joined (Opt n (fst p) [snd p]) = Opt n (fst p) [snd p]" if "p \<in> set d" for p
  proof -
    from that assms have "clean_value (snd p)" by blast
    then have "rstrip (snd p) = snd p" by (rule clean_value_facts(4))
    then show ?thesis by (simp add: joined_def)
  qed
  then show ?thesis by simp
qed

lemma read_section_lines:
  assumes "n \<noteq> []" and "clean_dict d"
    and "\<forall>it \<in> set (ps_items st). item_section it \<noteq> n"
  shows "\<exists>st'. read_lines st (section_lines n d) = (None, st')
           \<and> map joined (ps_items st') = map joined (ps_items st) @ section_items n d
           \<and> ps_e st' = ps_e st"
proof -
  note df = clean_dict_facts [OF assms(2)]
  have nh: "Header n \<notin> set (ps_items st)"
  proof
    assume "Header n \<in> set (ps_items st)"
    with assms(3) have "item_section (Header n) \<noteq> n" by blast
    then show False by (simp add: item_section_def)
  qed
  define st0 where "st0 = st\<lparr>ps_indent_level := 0, ps_items := ps_items st @ [Header n],
                   ps_sectname := Some n, ps_optname := None\<rparr>"
  have h: "read_line st (''['' @ n @ '']'') = Inr st0"
    unfolding st0_def using assms(1) nh by (intro read_line_header) simp_all
  have s0: "ps_sectname st0 = Some n" by (simp add: st0_def)
  have n0: "\<forall>p \<in> set d. \<not> list_ex (is_opt_of n (fst p)) (ps_items st0)"
  proof
    fix p assume "p \<in> set d"
    have "\<not> is_opt_of n (fst p) it" if "it \<in> set (ps_items st)" for it
      using that assms(3) is_opt_of_section [of n "fst p" it] by blast
    then show "\<not> list_ex (is_opt_of n (fst p)) (ps_items st0)"
      by (auto simp: st0_def list_ex_iff is_opt_of_def)
  qed
  from read_option_lines [OF df(1) df(2) s0 n0] obtain st1 where
    r1: "read_lines st0 (map item_line d) = (None, st1)"
    and i1: "ps_items st1 = ps_items st0 @ map (\<lambda>kv. Opt n (fst kv) [snd kv]) d"
    and e1: "ps_e st1 = ps_e st0"
    by blast
  define st2 where "st2 = (if in_option st1 then append_value st1 [] else st1)"
  have r2: "read_line st1 [] = Inr st2"
    by (simp add: read_line_empty st2_def)
  have i2: "map joined (ps_items st2) = map joined (ps_items st1)"
    by (simp add: st2_def joined_append_empty)
  have e2: "ps_e st2 = ps_e st1"
    by (simp add: st2_def append_value_def)
  have "read_lines st (section_lines n d) = (None, st2)"
    unfolding section_lines_def
    using h r1 r2 by (simp add: read_lines_append)
  moreover have "map joined (ps_items st2) = map joined (ps_items st) @ section_items n d"
    using i2 i1 joined_clean_items [OF df(2), of n]
    by (simp add: st0_def section_items_def joined_def)
  moreover have "ps_e st2 = ps_e st" using e2 e1 by (simp add: st0_def)
  ultimately show ?thesis by blast
qed

lemma read_blocks:
  assumes "distinct (map fst bs)" and "\<forall>b \<in> set bs. fst b \<noteq> [] \<and> clean_dict (snd b)"
    and "\<forall>it \<in> set (ps_items st). item_section it \<notin> fst ` set bs"
  shows "\<exists>st'. read_lines st (concat (map (\<lambda>b. section_lines (fst b) (snd b)) bs)) = (None, st')
           \<and> map joined (ps_items st')
               = map joined (ps_items st) @ concat (map (\<lambda>b. section_items (fst b) (snd b)) bs)
           \<and> ps_e st' = ps_e st"
  using assms
proof (induction bs arbitrary: st)
  case Nil
  then show ?case by simp
next
  case (Cons b bs)
  obtain n d where b: "b = (n, d)" by (cases b)
  from Cons.prems(2) b have ne: "n \<noteq> []" and cd: "clean_dict d" by simp_all
  from Cons.prems(3) b have fresh: "\<forall>it \<in> set (ps_items st). item_section it \<noteq> n" by auto
  from read_section_lines [OF ne cd fresh] obtain st1 where
    r1: "read_lines st (section_lines n d) = (None, st1)"
    and i1: "map joined (ps_items st1) = map joined (ps_items st) @ section_items n d"
    and e1: "ps_e st1 = ps_e st"
    by blast
  have d1: "distinct (map fst bs)" using Cons.prems(1) by simp
  have c1: "\<forall>b \<in> set bs. fst b \<noteq> [] \<and> clean_dict (snd b)" using Cons.prems(2) by simp
  have nn: "n \<notin> fst ` set bs" using Cons.prems(1) b by force
  have f1: "\<forall>it \<in> set (ps_items st1). item_section it \<notin> fst ` set bs"
  proof
    fix it assume "it \<in> set (ps_items st1)"
    then have "joined it \<in> set (map joined (ps_items st1))" by simp
    then have "joined it \<in> joined ` set (ps_items st) \<or> joined it \<in> set (section_items n d)"
      unfolding i1 by auto
    then show "item_section it \<notin> fst ` set bs"
    proof
      assume "joined it \<in> joined ` set (ps_items st)"
      then obtain it' where it': "it' \<in> set (ps_items st)" and j: "joined it = joined it'"
        by blast
      from it' Cons.prems(3) have "item_section it' \<notin> fst ` set bs" by auto
      moreover from j have "item_section it = item_section it'"
        by (metis item_section_joined)
      ultimately show ?thesis by simp
    next
      assume "joined it \<in> set (section_items n d)"
      then have "item_section (joined it) = n" by (rule item_section_section_items)
      with nn show ?thesis by simp
    qed
  qed
  from Cons.IH [OF d1 c1 f1] obtain st' where
    r: "read_lines st1 (concat (map (\<lambda>b. section_lines (fst b) (snd b)) bs)) = (None, st')"
    and i: "map joined (ps_items st')
               = map joined (ps_items st1) @ concat (map (\<lambda>b. section_items (fst b) (snd b)) bs)"
    and e: "ps_e st' = ps_e st1"
    by blast
  have "read_lines st (concat (map (\<lambda>b. section_lines (fst b) (snd b)) (b # bs))) = (None, st')"
    using r1 r by (simp add: b read_lines_append)
  moreover have "map joined (ps_items st')
      = map joined (ps_items st) @ concat (map (\<lambda>b. section_items (fst b) (snd b)) (b # bs))"
    using i i1 by (simp add: b)
  moreover have "ps_e st' = ps_e st" using e e1 by simp
  ultimately show ?case by blast
qed

lemma replace_newlines_id: "NL \<notin> set v \<Longrightarrow> replace_newlines v = v"
  by (induction v) (auto simp: replace_newlines_def)

lemma lines_from_line:
  "NL \<notin> set l \<Longrightarrow> lines_from cur (l @ NL # rest) = (rev cur @ l) # lines_from [] rest"
  by (induction l arbitrary: cur) auto

lemma file_lines_unlines:
  "\<forall>l \<in> set ls. NL \<notin> set l \<Longrightarrow> file_lines (unlines ls) = ls"
proof (induction ls)
  case Nil
  then show ?case by (simp add: file_lines_def unlines_def)
next
  case (Cons l ls)
  then have "NL \<notin> set l" and IH: "lines_from [] (unlines ls) = ls"
    by (simp_all add: file_lines_def)
  then show ?case
    using lines_from_line [of l "[]" "unlines ls"]
    by (simp add: file_lines_def unlines_def)
qed

lemma clean_value_no_NL: "clean_value v \<Longrightarrow> NL \<notin> set v"
  unfolding clean_value_def by blast

lemma clean_key_no_NL: "clean_key k \<Longrightarrow> NL \<notin> set k"
  unfolding clean_key_def by blast

lemma write_section_unlines:
  assumes "\<forall>p \<in> set d. clean_value (snd p)"
  shows "write_section n d = unlines (section_lines n d)"
proof -
  have "write_item p = item_line p @ [NL]" if "p \<in> set d" for p
  proof -
    from that assms have "clean_value (snd p)" by blast
    then have "NL \<notin> set (snd p)" by (rule clean_value_no_NL)
    then show ?thesis
      by (simp add: write_item_def item_line_def replace_newlines_id)
  qed
  then have "map write_item d = map (\<lambda>p. item_line p @ [NL]) d" by simp
  then have "concat (map write_item d) = concat (map (\<lambda>p. item_line p @ [NL]) d)"
    by (rule arg_cong)
  then have "concat (map write_item d) = concat (map (\<lambda>l. l @ [NL]) (map item_line d))"
    by (simp add: comp_def)
  then show ?thesis
    by (simp add: write_section_def section_lines_def unlines_def)
qed

lemma unlines_Nil [simp]: "unlines [] = []"
  by (simp add: unlines_def)

lemma unlines_append: "unlines (xs @ ys) = unlines xs @ unlines ys"
  by (simp add: unlines_def)

lemma unlines_concat: "unlines (concat xss) = concat (map unlines xss)"
  by (induction xss) (simp_all add: unlines_append)

lemma clean_parser_facts:
  assumes "clean_parser cp"
  shows "distinct (map fst (cp_sections cp))"
    "\<forall>p \<in> set (cp_sections cp). clean_section (fst p) \<and> clean_dict (snd p)"
    "clean_dict (cp_defaults cp)"
  using assms unfolding clean_parser_def by blast+

lemma clean_all_blocks:
  assumes "clean_parser cp"
  shows "distinct (map fst (all_blocks cp))"
    and "\<forall>b \<in> set (all_blocks cp). fst b \<noteq> [] \<and> clean_dict (snd b)"
    and "\<forall>b \<in> set (all_blocks cp). NL \<notin> set (fst b)"
proof -
  note f = clean_parser_facts [OF assms]
  have nd: "DEFAULTSECT \<notin> fst ` set (cp_sections cp)"
  proof
    assume "DEFAULTSECT \<in> fst ` set (cp_sections cp)"
    then obtain p where "p \<in> set (cp_sections cp)" "fst p = DEFAULTSECT" by auto
    with f(2) have "clean_section DEFAULTSECT" by auto
    then show False unfolding clean_section_def by blast
  qed
  show "distinct (map fst (all_blocks cp))"
    using f(1) nd by (simp add: all_blocks_def)
  have dne: "DEFAULTSECT \<noteq> []" by (simp add: DEFAULTSECT_def)
  have dnl: "NL \<notin> set DEFAULTSECT" by (simp add: DEFAULTSECT_def NL_def)
  have s1: "fst b \<noteq> [] \<and> clean_dict (snd b) \<and> NL \<notin> set (fst b)"
    if "b \<in> set (cp_sections cp)" for b
  proof -
    from that f(2) have "clean_section (fst b)" "clean_dict (snd b)" by auto
    then show ?thesis unfolding clean_section_def by blast
  qed
  show "\<forall>b \<in> set (all_blocks cp). fst b \<noteq> [] \<and> clean_dict (snd b)"
    using s1 f(3) dne by (auto simp: all_blocks_def)
  show "\<forall>b \<in> set (all_blocks cp). NL \<notin> set (fst b)"
    using s1 dnl by (auto simp: all_blocks_def)
qed

lemma cp_write_unlines:
  assumes "clean_parser cp"
  shows "cp_write cp = unlines (concat (map (\<lambda>b. section_lines (fst b) (snd b)) (all_blocks cp)))"
proof -
  note f = clean_parser_facts [OF assms]
  have d: "write_section DEFAULTSECT (cp_defaults cp)
           = unlines (section_lines DEFAULTSECT (cp_defaults cp))"
    using f(3) by (intro write_section_unlines) (simp add: clean_dict_def)
  have s: "write_section (fst b) (snd b) = unlines (section_lines (fst b) (snd b))"
    if "b \<in> set (cp_sections cp)" for b
    using that f(2) by (intro write_section_unlines) (auto simp: clean_dict_def)
  then have "map (\<lambda>(name, d). write_section name d) (cp_sections cp)
        = map (\<lambda>b. unlines (section_lines (fst b) (snd b))) (cp_sections cp)"
    by (auto simp: case_prod_beta)
  then have "concat (map (\<lambda>(name, d). write_section name d) (cp_sections cp))
        = concat (map (\<lambda>b. unlines (section_lines (fst b) (snd b))) (cp_sections cp))"
    by (rule arg_cong)
  then have "concat (map (\<lambda>(name, d). write_section name d) (cp_sections cp))
        = unlines (concat (map (\<lambda>b. section_lines (fst b) (snd b)) (cp_sections cp)))"
    by (simp add: unlines_concat comp_def)
  with d show ?thesis
    by (simp add: cp_write_def all_blocks_def unlines_append)
qed

lemma section_lines_no_NL:
  assumes "NL \<notin> set n" and "clean_dict d" and "l \<in> set (section_lines n d)"
  shows "NL \<notin> set l"
proof -
  have "NL \<notin> set (item_line p)" if "p \<in> set d" for p
  proof -
    from that assms(2) have "clean_key (fst p)" "clean_value (snd p)"
      unfolding clean_dict_def by blast+
    then have "NL \<notin> set (fst p)" "NL \<notin> set (snd p)"
      by (simp_all add: clean_key_no_NL clean_value_no_NL)
    then show ?thesis by (simp add: item_line_def NL_def)
  qed
  with assms(1,3) show ?thesis
    by (auto simp: section_lines_def NL_def)
qed

lemma fold_store_item_id:
  "\<forall>it \<in> set its. store_item it cp = cp \<Longrightarrow> fold store_item its cp = cp"
  by (induction its) simp_all

lemma cp_sections_id: "cp\<lparr>cp_sections := cp_sections cp\<rparr> = cp"
  by simp

lemma cp_defaults_id: "cp\<lparr>cp_defaults := cp_defaults cp\<rparr> = cp"
  by simp

lemma store_section_item_id:
  assumes "distinct (map fst (cp_sections cp))" and "(n, d) \<in> set (cp_sections cp)"
    and "clean_dict d" and "it \<in> set (section_items n d)"
  shows "store_item it cp = cp"
proof -
  from assms(1,2) have m: "map_of (cp_sections cp) n = Some d"
    by (rule map_of_is_SomeI)
  from assms(4) consider "it = Header n"
    | p where "p \<in> set d" "it = Opt n (fst p) [snd p]"
    by (auto simp: section_items_def)
  then show ?thesis
  proof cases
    case 1
    with m show ?thesis by simp
  next
    case 2
    from 2(1) assms(3) have cv: "clean_value (snd p)" and dd: "distinct (map fst d)"
      unfolding clean_dict_def by blast+
    from dd 2(1) have mk: "map_of d (fst p) = Some (snd p)"
      by (intro map_of_is_SomeI) simp_all
    have r: "rstrip (snd p) = snd p" by (rule clean_value_facts(4) [OF cv])
    have u1: "AList.update (fst p) (snd p) d = d"
      by (rule AList.update_triv [OF mk])
    have u2: "AList.update n d (cp_sections cp) = cp_sections cp"
      by (rule AList.update_triv [OF m])
    show ?thesis
      unfolding 2(2) by (simp add: m r u1 u2)
  qed
qed

lemma store_default_item_id:
  assumes "map_of (cp_sections cp) DEFAULTSECT = None"
    and "clean_dict (cp_defaults cp)" and "it \<in> set (section_items DEFAULTSECT (cp_defaults cp))"
  shows "store_item it cp = cp"
proof -
  from assms(3) consider "it = Header DEFAULTSECT"
    | p where "p \<in> set (cp_defaults cp)" "it = Opt DEFAULTSECT (fst p) [snd p]"
    by (auto simp: section_items_def)
  then show ?thesis
  proof cases
    case 1
    with assms(1) show ?thesis by simp
  next
    case 2
    from 2(1) assms(2) have cv: "clean_value (snd p)"
      and dd: "distinct (map fst (cp_defaults cp))"
      unfolding clean_dict_def by blast+
    from dd 2(1) have mk: "map_of (cp_defaults cp) (fst p) = Some (snd p)"
      by (intro map_of_is_SomeI) simp_all
    have r: "rstrip (snd p) = snd p" by (rule clean_value_facts(4) [OF cv])
    have u1: "AList.update (fst p) (snd p) (cp_defaults cp) = cp_defaults cp"
      by (rule AList.update_triv [OF mk])
    show ?thesis
      unfolding 2(2) by (simp add: assms(1) r u1)
  qed
qed

lemma store_all_blocks_id:
  assumes "clean_parser cp"
  shows "fold store_item (concat (map (\<lambda>b. section_items (fst b) (snd b)) (all_blocks cp))) cp = cp"
proof (rule fold_store_item_id, rule ballI)
  fix it
  assume "it \<in> set (concat (map (\<lambda>b. section_items (fst b) (snd b)) (all_blocks cp)))"
  then obtain b where b: "b \<in> set (all_blocks cp)" and it: "it \<in> set (section_items (fst b) (snd b))"
    by auto
  note f = clean_parser_facts [OF assms]
  from clean_all_blocks(1) [OF assms] have "DEFAULTSECT \<notin> fst ` set (cp_sections cp)"
    by (auto simp: all_blocks_def split: if_splits) (metis clean_section_def f(2) fst_conv)
  then have mn: "map_of (cp_sections cp) DEFAULTSECT = None"
    by (simp add: map_of_eq_None_iff)
  from b consider "b = (DEFAULTSECT, cp_defaults cp)" | "b \<in> set (cp_sections cp)"
    by (auto simp: all_blocks_def split: if_splits)
  then show "store_item it cp = cp"
  proof cases
    case 1
    with it f(3) mn show ?thesis by (auto intro: store_default_item_id)
  next
    case 2
    then have m: "(fst b, snd b) \<in> set (cp_sections cp)" by simp
    from 2 f(2) have cd: "clean_dict (snd b)" by blast
    show ?thesis by (rule store_section_item_id [OF f(1) m cd it])
  qed
qed

lemma read_written:
  assumes "clean_parser cp"
  shows "cp_read_text cp (cp_write cp) = (None, cp)"
proof -
  let ?lines = "concat (map (\<lambda>b. section_lines (fst b) (snd b)) (all_blocks cp))"
  let ?items = "concat (map (\<lambda>b. section_items (fst b) (snd b)) (all_blocks cp))"
  note ab = clean_all_blocks [OF assms]
  have nl: "\<forall>l \<in> set ?lines. NL \<notin> set l"
  proof
    fix l assume "l \<in> set ?lines"
    then obtain b where b: "b \<in> set (all_blocks cp)" and l: "l \<in> set (section_lines (fst b) (snd b))"
      by auto
    from b ab(2,3) have "NL \<notin> set (fst b)" "clean_dict (snd b)" by blast+
    then show "NL \<notin> set l" using l by (rule section_lines_no_NL)
  qed
  have fl: "file_lines (cp_write cp) = ?lines"
    unfolding cp_write_unlines [OF assms] by (rule file_lines_unlines [OF nl])
  have fresh: "\<forall>it \<in> set (ps_items initial_parse_state). item_section it \<notin> fst ` set (all_blocks cp)"
    by (simp add: initial_parse_state_def)
  from read_blocks [OF ab(1) ab(2) fresh] obtain st' where
    r: "read_lines initial_parse_state ?lines = (None, st')"
    and i: "map joined (ps_items st') = map joined (ps_items initial_parse_state) @ ?items"
    and e: "ps_e st' = ps_e initial_parse_state"
    by blast
  from e have e': "\<not> ps_e st'" by (simp add: initial_parse_state_def)
  from i have i': "map joined (ps_items st') = ?items" by (simp add: initial_parse_state_def)
  have ii: "ini_items (cp_write cp) = (None, ps_items st')"
    unfolding ini_items_def fl r using e' by simp
  have "fold store_item (ps_items st') cp = fold store_item (map joined (ps_items st')) cp"
    by (simp add: fold_store_item_joined)
  also have "\<dots> = cp" unfolding i' by (rule store_all_blocks_id [OF assms])
  finally show ?thesis
    unfolding cp_read_text_def ii by simp
qed

lemma keycre_match_no_percent: "s = [] \<or> hd s \<noteq> CHR ''%'' \<Longrightarrow> keycre_match s = None"
  by (cases s) (auto simp: keycre_match_def split: list.splits)

lemma interpolate_plain:
  assumes "CHR ''%'' \<notin> set v" and "depth \<le> MAX_INTERPOLATION_DEPTH"
  shows "interpolate_some m depth v = Inr v"
  using assms(1)
proof (induction v)
  case Nil
  show ?case using assms(2) by (subst interpolate_some.simps) simp
next
  case (Cons c v)
  then have "interpolate_some m depth v = Inr v" and "c \<noteq> CHR ''%''" by auto
  with assms(2) show ?case by (subst interpolate_some.simps) simp
qed

lemma before_get_plain: "CHR ''%'' \<notin> set v \<Longrightarrow> before_get m v = Inr v"
  unfolding before_get_def
  by (rule interpolate_plain) (simp_all add: MAX_INTERPOLATION_DEPTH_def)

lemma replace_escaped_plain: "CHR ''%'' \<notin> set v \<Longrightarrow> replace_escaped v = v"
  by (induction v rule: replace_escaped.induct) auto

lemma keycre_sub_plain: "CHR ''%'' \<notin> set v \<Longrightarrow> keycre_sub v = v"
proof (induction v)
  case Nil
  show ?case by (subst keycre_sub.simps) simp
next
  case (Cons c v)
  then have "keycre_sub v = v" and "keycre_match (c # v) = None"
    by (auto intro: keycre_match_no_percent)
  then show ?case by (subst keycre_sub.simps) simp
qed

lemma before_set_plain: "CHR ''%'' \<notin> set v \<Longrightarrow> before_set v = Inr v"
  by (simp add: before_set_def replace_escaped_plain keycre_sub_plain)

lemma clean_value_plain: "clean_value v \<Longrightarrow> CHR ''%'' \<notin> set v"
  unfolding clean_value_def by blast

lemma items_interpolated_plain:
  "\<forall>p \<in> set d. CHR ''%'' \<notin> set (snd p) \<Longrightarrow> items_interpolated m d = Inr d"
  by (induction d) (auto simp: before_get_plain)

lemma cp_set_plain:
  assumes "sect \<noteq> []" "sect \<noteq> DEFAULTSECT" "map_of (cp_sections cp) sect = Some d"
    and "CHR ''%'' \<notin> set v"
  shows "cp_set cp sect k v
         = Inr (cp\<lparr>cp_sections :=
             AList.update sect (AList.update (optionxform k) v d) (cp_sections cp)\<rparr>)"
  using assms by (simp add: cp_set_def before_set_plain)

lemma resort_plain:
  assumes "sect \<noteq> []" "sect \<noteq> DEFAULTSECT"
    and "map_of (cp_sections cp) sect = Some d0"
    and "distinct (map fst kvs)" and "\<forall>k \<in> fst ` set kvs. optionxform k = k"
    and "\<forall>p \<in> set kvs. CHR ''%'' \<notin> set (snd p)"
  shows "\<exists>cp'. resort cp sect kvs = (None, cp')"
  using assms(3-)
proof (induction kvs arbitrary: cp d0)
  case Nil
  then show ?case by simp
next
  case (Cons kv kvs)
  obtain k v where kv: "kv = (k, v)" by (cases kv)
  from Cons.prems(3) kv have kx: "optionxform k = k" by simp
  from Cons.prems(4) kv have pv: "CHR ''%'' \<notin> set v" by simp
  define cp1 where
    "cp1 = cp\<lparr>cp_sections := AList.update sect (AList.delete k d0) (cp_sections cp)\<rparr>"
  have rm: "cp_remove_option cp sect k = Inr cp1"
    unfolding cp1_def by (rule cp_remove_option_section [OF assms(1,2) Cons.prems(1) kx])
  have m1: "map_of (cp_sections cp1) sect = Some (AList.delete k d0)"
    by (simp add: cp1_def AList.update_conv')
  define cp2 where
    "cp2 = cp1\<lparr>cp_sections :=
       AList.update sect (AList.update (optionxform k) v (AList.delete k d0)) (cp_sections cp1)\<rparr>"
  have st: "cp_set cp1 sect k v = Inr cp2"
    unfolding cp2_def by (rule cp_set_plain [OF assms(1,2) m1 pv])
  have m2: "map_of (cp_sections cp2) sect
            = Some (AList.update (optionxform k) v (AList.delete k d0))"
    by (simp add: cp2_def AList.update_conv')
  from Cons.prems(2) have d: "distinct (map fst kvs)" by simp
  from Cons.prems(3) have lw: "\<forall>k \<in> fst ` set kvs. optionxform k = k" by simp
  from Cons.prems(4) have pl: "\<forall>p \<in> set kvs. CHR ''%'' \<notin> set (snd p)" by simp
  from Cons.IH [OF m2 d lw pl] obtain cp' where "resort cp2 sect kvs = (None, cp')" by blast
  with rm st kv show ?case by simp
qed

lemma clean_dict_ok: "clean_dict d \<Longrightarrow> dict_ok d"
  unfolding clean_dict_def dict_ok_def clean_key_def by blast

lemma clean_parser_ok: "clean_parser cp \<Longrightarrow> parser_ok cp"
proof -
  assume a: "clean_parser cp"
  note f = clean_parser_facts [OF a]
  have "fst p \<noteq> [] \<and> fst p \<noteq> DEFAULTSECT \<and> dict_ok (snd p)" if "p \<in> set (cp_sections cp)" for p
  proof -
    from that f(2) have "clean_section (fst p)" "clean_dict (snd p)" by blast+
    then show ?thesis unfolding clean_section_def by (blast intro: clean_dict_ok)
  qed
  with f(1) clean_dict_ok [OF f(3)] show ?thesis
    unfolding parser_ok_def by blast
qed

lemma clean_dict_update:
  assumes "clean_dict d" and "clean_key k" and "clean_value v"
  shows "clean_dict (AList.update k v d)"
proof -
  have "clean_key (fst p) \<and> clean_value (snd p)" if "p \<in> set (AList.update k v d)" for p
  proof -
    from that set_update_subset [of k v d] have "p = (k, v) \<or> p \<in> set d" by auto
    with assms show ?thesis unfolding clean_dict_def by auto
  qed
  moreover from assms(1) have "distinct (map fst (AList.update k v d))"
    unfolding clean_dict_def by (blast intro: AList.distinct_update)
  ultimately show ?thesis unfolding clean_dict_def by blast
qed

lemma clean_dict_dict_update:
  assumes "clean_dict d" and "clean_dict other"
  shows "clean_dict (dict_update d other)"
proof -
  have "clean_dict d \<Longrightarrow> \<forall>p \<in> set other. clean_key (fst p) \<and> clean_value (snd p)
        \<Longrightarrow> clean_dict (fold (\<lambda>(k, v) acc. AList.update k v acc) other d)" for d
  proof (induction other arbitrary: d)
    case Nil
    then show ?case by simp
  next
    case (Cons p other)
    obtain k v where p: "p = (k, v)" by (cases p)
    with Cons.prems have "clean_dict (AList.update k v d)"
      by (auto intro: clean_dict_update)
    with Cons.IH [of "AList.update k v d"] Cons.prems(2) p show ?case by simp
  qed
  with assms show ?thesis unfolding dict_update_def clean_dict_def by blast
qed

lemma clean_dict_sort: "clean_dict d \<Longrightarrow> clean_dict (sort_key fst d)"
  unfolding clean_dict_def by (simp add: map_fst_sort_key del: map_map)

lemma clean_parser_update_section:
  assumes "clean_parser cp" and "map_of (cp_sections cp) sect = Some d" and "clean_dict d'"
  shows "clean_parser (cp\<lparr>cp_sections := AList.update sect d' (cp_sections cp)\<rparr>)"
proof -
  note f = clean_parser_facts [OF assms(1)]
  from assms(2) have in_s: "(sect, d) \<in> set (cp_sections cp)" by (rule map_of_SomeD)
  then have mem: "sect \<in> set (map fst (cp_sections cp))" by force
  from in_s f(2) have cs: "clean_section sect" by force
  have keys: "map fst (AList.update sect d' (cp_sections cp)) = map fst (cp_sections cp)"
    using mem by (simp add: AList.update_keys)
  have "clean_section (fst p) \<and> clean_dict (snd p)"
    if "p \<in> set (AList.update sect d' (cp_sections cp))" for p
  proof -
    from that set_update_subset [of sect d' "cp_sections cp"]
    have "p = (sect, d') \<or> p \<in> set (cp_sections cp)" by auto
    with f(2) assms(3) cs show ?thesis by auto
  qed
  with f(1,3) keys show ?thesis
    unfolding clean_parser_def by (simp del: map_map)
qed

lemma clean_parser_append_section:
  assumes "clean_parser cp" and "map_of (cp_sections cp) n = None" and "clean_section n"
  shows "clean_parser (cp\<lparr>cp_sections := cp_sections cp @ [(n, [])]\<rparr>)"
proof -
  note f = clean_parser_facts [OF assms(1)]
  from assms(2) have "n \<notin> fst ` set (cp_sections cp)"
    by (simp add: map_of_eq_None_iff)
  with f assms(3) show ?thesis
    unfolding clean_parser_def by (auto simp: clean_dict_def)
qed

lemma clean_section_facts:
  assumes "clean_section n"
  shows "n \<noteq> []" "n \<noteq> DEFAULTSECT"
  using assms unfolding clean_section_def by blast+

lemma set_phase_clean:
  assumes "clean_parser c1" and "clean_section sect" and "clean_key (optionxform key)"
    and "clean_value v"
  shows "\<exists>c2. (cp_set c1 sect key v = Inr c2
              \<or> (cp_set c1 sect key v = Inl NoSectionError
                 \<and> (\<exists>cp1. cp_add_section c1 sect = Inr cp1 \<and> cp_set cp1 sect key v = Inr c2)))
           \<and> clean_parser c2
           \<and> (\<exists>d2. map_of (cp_sections c2) sect = Some d2 \<and> map_of d2 (optionxform key) = Some v)
           \<and> cp_defaults c2 = cp_defaults c1"
proof -
  note sf = clean_section_facts [OF assms(2)]
  note pv = clean_value_plain [OF assms(4)]
  have step: "\<exists>c2. cp_set c sect key v = Inr c2 \<and> clean_parser c2
           \<and> (\<exists>d2. map_of (cp_sections c2) sect = Some d2 \<and> map_of d2 (optionxform key) = Some v)
           \<and> cp_defaults c2 = cp_defaults c"
    if c: "clean_parser c" and m: "map_of (cp_sections c) sect = Some d" for c d
  proof -
    let ?d2 = "AList.update (optionxform key) v d"
    let ?c2 = "c\<lparr>cp_sections := AList.update sect ?d2 (cp_sections c)\<rparr>"
    have s: "cp_set c sect key v = Inr ?c2"
      by (rule cp_set_plain [OF sf m pv])
    from m have "(sect, d) \<in> set (cp_sections c)" by (rule map_of_SomeD)
    with clean_parser_facts(2) [OF c] have "clean_dict d" by force
    then have "clean_dict ?d2" using assms(3,4) by (rule clean_dict_update)
    with c m have cl: "clean_parser ?c2" by (rule clean_parser_update_section)
    have "map_of (cp_sections ?c2) sect = Some ?d2"
      by (simp add: AList.update_conv')
    moreover have "map_of ?d2 (optionxform key) = Some v"
      by (simp add: AList.update_conv')
    ultimately show ?thesis using s cl by auto
  qed
  show ?thesis
  proof (cases "map_of (cp_sections c1) sect")
    case (Some d)
    from step [OF assms(1) Some] show ?thesis by blast
  next
    case None
    let ?cp1 = "c1\<lparr>cp_sections := cp_sections c1 @ [(sect, [])]\<rparr>"
    have ns: "cp_set c1 sect key v = Inl NoSectionError"
      using None sf pv by (simp add: cp_set_def before_set_plain)
    have ad: "cp_add_section c1 sect = Inr ?cp1"
      using None sf by (simp add: cp_add_section_def)
    have cl1: "clean_parser ?cp1"
      by (rule clean_parser_append_section [OF assms(1) None assms(2)])
    have m1: "map_of (cp_sections ?cp1) sect = Some []"
      using None by (simp add: map_add_def)
    from step [OF cl1 m1] ns ad show ?thesis by auto
  qed
qed

lemma clean_dict_plain:
  assumes "clean_dict d"
  shows "\<forall>p \<in> set d. CHR ''%'' \<notin> set (snd p)"
proof
  fix p assume "p \<in> set d"
  with assms have "clean_value (snd p)" unfolding clean_dict_def by blast
  then show "CHR ''%'' \<notin> set (snd p)" by (rule clean_value_plain)
qed

lemma cp_items_clean:
  assumes "clean_parser cp" and "map_of (cp_sections cp) n = Some d"
  shows "cp_items cp n = Inr (dict_update (cp_defaults cp) d)"
    and "clean_dict (dict_update (cp_defaults cp) d)"
proof -
  note f = clean_parser_facts [OF assms(1)]
  from assms(2) have "(n, d) \<in> set (cp_sections cp)" by (rule map_of_SomeD)
  with f(2) have "clean_dict d" by force
  with f(3) show cd: "clean_dict (dict_update (cp_defaults cp) d)"
    by (rule clean_dict_dict_update)
  then have "\<forall>p \<in> set (dict_update (cp_defaults cp) d). CHR ''%'' \<notin> set (snd p)"
    by (rule clean_dict_plain)
  then show "cp_items cp n = Inr (dict_update (cp_defaults cp) d)"
    using assms(2) by (simp add: cp_items_def items_interpolated_plain)
qed

lemma save_sections_clean:
  assumes "clean_parser cp" and "set names \<subseteq> set (map fst (cp_sections cp))"
  shows "\<exists>cp'. save_sections cp names = (None, cp') \<and> clean_parser cp'"
  using assms
proof (induction names arbitrary: cp)
  case Nil
  then show ?case by simp
next
  case (Cons s names)
  from Cons.prems(2) obtain d where m: "map_of (cp_sections cp) s = Some d"
    by (cases "map_of (cp_sections cp) s") (auto simp: map_of_eq_None_iff)
  let ?its = "dict_update (cp_defaults cp) d"
  note ci = cp_items_clean [OF Cons.prems(1) m]
  note ok = clean_parser_ok [OF Cons.prems(1)]
  note sD = parser_ok_sectionD [OF ok m]
  have cs: "clean_dict (sort_key fst ?its)" by (rule clean_dict_sort [OF ci(2)])
  have dist: "distinct (map fst (sort_key fst ?its))"
    using cs unfolding clean_dict_def by blast
  have low: "\<forall>k \<in> fst ` set (sort_key fst ?its). optionxform k = k"
    using cs unfolding clean_dict_def clean_key_def by blast
  have pl: "\<forall>p \<in> set (sort_key fst ?its). CHR ''%'' \<notin> set (snd p)"
    using cs by (rule clean_dict_plain)
  from resort_plain [OF sD(1,2) m dist low pl] obtain cp1 where
    rs: "resort cp s (sort_key fst ?its) = (None, cp1)" by blast
  have cp1: "cp1 = cp\<lparr>cp_sections := AList.update s (sort_key fst ?its) (cp_sections cp)\<rparr>"
    by (rule save_one(1) [OF ok m ci(1) rs])
  have cl1: "clean_parser cp1"
    unfolding cp1 by (rule clean_parser_update_section [OF Cons.prems(1) m cs])
  from m have "s \<in> set (map fst (cp_sections cp))" by (force dest: map_of_SomeD)
  then have "map fst (cp_sections cp1) = map fst (cp_sections cp)"
    by (simp add: cp1 AList.update_keys)
  with Cons.prems(2) have sub: "set names \<subseteq> set (map fst (cp_sections cp1))" by simp
  from Cons.IH [OF cl1 sub] obtain cp' where
    "save_sections cp1 names = (None, cp')" "clean_parser cp'" by blast
  with ci(1) rs show ?case by simp
qed

lemma Configure_save_clean:
  assumes "clean_parser (config st)"
  shows "\<exists>c3. Configure_save st
           = (Return (), st\<lparr>config := c3,
                files := (files st)(configure_path st \<mapsto> cp_write c3)\<rparr>)
         \<and> clean_parser c3
         \<and> (\<forall>n d. map_of (cp_sections (config st)) n = Some d \<longrightarrow>
               map_of (cp_sections c3) n
               = Some (sort_key fst (dict_update (cp_defaults (config st)) d)))
         \<and> cp_defaults c3 = cp_defaults (config st)"
proof -
  have sub: "set (cp_section_names (config st)) \<subseteq> set (map fst (cp_sections (config st)))"
    by (simp add: cp_section_names_def)
  from save_sections_clean [OF assms sub] obtain c3 where
    ss: "save_sections (config st) (cp_section_names (config st)) = (None, c3)"
    and cl: "clean_parser c3" by blast
  let ?st' = "st\<lparr>config := c3, files := (files st)(configure_path st \<mapsto> cp_write c3)\<rparr>"
  have sv: "Configure_save st = (Return (), ?st')"
    by (simp add: Configure_save_def ss)
  note ok = clean_parser_ok [OF assms]
  have "map_of (cp_sections c3) n = Some (sort_key fst (dict_update (cp_defaults (config st)) d))"
    if m: "map_of (cp_sections (config st)) n = Some d" for n d
  proof -
    from Configure_save_result(4) [OF ok sv m] obtain its where
      "cp_items (config st) n = Inr its"
      "map_of (cp_sections (config ?st')) n = Some (sort_key fst its)" by blast
    with cp_items_clean(1) [OF assms m] show ?thesis by simp
  qed
  moreover have "cp_defaults c3 = cp_defaults (config st)"
    using Configure_save_result(2) [OF ok sv] by simp
  ultimately show ?thesis using sv cl by blast
qed

lemma map_of_sort_key:
  assumes "distinct (map fst d)"
  shows "map_of (sort_key fst d) = map_of d"
proof (rule map_of_inject_set [THEN iffD2])
  show "distinct (map fst (sort_key fst d))"
    using assms by (simp add: map_fst_sort_key del: map_map)
  show "distinct (map fst d)" by (rule assms)
  show "set (sort_key fst d) = set d" by simp
qed

lemma dict_update_lookup:
  assumes "distinct (map fst other)" and "map_of other k = Some v"
  shows "map_of (dict_update d other) k = Some v"
proof -
  from assms(2) have "(k, v) \<in> set (rev other)" by (auto dest: map_of_SomeD)
  moreover from assms(1) have "distinct (map fst (rev other))"
    by (simp add: rev_map [symmetric])
  ultimately have "map_of (rev other) k = Some v" by simp
  then show ?thesis by (simp add: dict_update_map_of)
qed

lemma cp_get_clean:
  assumes "map_of (cp_sections cp) sect = Some d" and "map_of d (optionxform key) = Some v"
    and "CHR ''%'' \<notin> set v"
  shows "cp_get cp sect key = Inr v"
  using assms by (simp add: cp_get_def unify_values_def before_get_plain)

lemma NL_not_CR: "NL \<noteq> CR"
  by (simp add: NL_def CR_def)

lemma unlines_no_CR: "\<forall>l \<in> set ls. CR \<notin> set l \<Longrightarrow> CR \<notin> set (unlines ls)"
  using NL_not_CR by (induction ls) (auto simp: unlines_def)

lemma section_lines_no_CR:
  assumes "CR \<notin> set n" and "clean_dict d" and "l \<in> set (section_lines n d)"
  shows "CR \<notin> set l"
proof -
  have "CR \<notin> set (item_line p)" if "p \<in> set d" for p
  proof -
    from that assms(2) have "clean_key (fst p)" "clean_value (snd p)"
      unfolding clean_dict_def by blast+
    then have "CR \<notin> set (fst p)" "CR \<notin> set (snd p)"
      unfolding clean_key_def clean_value_def by blast+
    then show ?thesis by (simp add: item_line_def CR_def)
  qed
  with assms(1,3) show ?thesis
    by (auto simp: section_lines_def CR_def)
qed

lemma cp_write_no_CR:
  assumes "clean_parser cp"
  shows "CR \<notin> set (cp_write cp)"
proof -
  note f = clean_parser_facts [OF assms]
  note ab = clean_all_blocks [OF assms]
  have "CR \<notin> set l"
    if "l \<in> set (concat (map (\<lambda>b. section_lines (fst b) (snd b)) (all_blocks cp)))" for l
  proof -
    from that obtain b where b: "b \<in> set (all_blocks cp)"
      and l: "l \<in> set (section_lines (fst b) (snd b))" by auto
    from b ab(2) have cd: "clean_dict (snd b)" by blast
    from b consider "b = (DEFAULTSECT, cp_defaults cp)" | "b \<in> set (cp_sections cp)"
      by (auto simp: all_blocks_def split: if_splits)
    then have "CR \<notin> set (fst b)"
    proof cases
      case 1
      then show ?thesis by (simp add: DEFAULTSECT_def CR_def)
    next
      case 2
      with f(2) have "clean_section (fst b)" by blast
      then show ?thesis unfolding clean_section_def by blast
    qed
    then show ?thesis using cd l by (rule section_lines_no_CR)
  qed
  then show ?thesis
    unfolding cp_write_unlines [OF assms] by (intro unlines_no_CR) blast
qed

lemma optionxform_nonempty: "optionxform k \<noteq> [] \<Longrightarrow> k \<noteq> []"
  by (auto simp: optionxform_def lower_def)

lemma reload_written:
  assumes "clean_parser (config st)" and "utf8_faithful dec"
    and "files st (configure_path st) = Some (cp_write (config st))"
  shows "Configure_reload dec ''UTF-8'' fq st = (Return (), st)"
proof -
  from assms(2) cp_write_no_CR [OF assms(1)]
  have d: "dec ''UTF-8'' (cp_write (config st)) = Some (cp_write (config st))"
    unfolding utf8_faithful_def by blast
  from reload_ok [where dec = dec, OF assms(3) d read_written [OF assms(1)]] show ?thesis by simp
qed

lemma write_clean:
  assumes "files st (configure_path st) = Some content"
    and "dec ''UTF-8'' content = Some tx"
    and "cp_read_text (config st) tx = (None, c1)"
    and "clean_parser c1"
    and "clean_section sect" and "clean_key (optionxform key)" and "clean_value v"
  shows "\<exists>c3 d3. Configure_write dec sect key v True st
           = (Return (), st\<lparr>config := c3,
                files := (files st)(configure_path st \<mapsto> cp_write c3)\<rparr>)
         \<and> clean_parser c3
         \<and> map_of (cp_sections c3) sect = Some d3
         \<and> map_of d3 (optionxform key) = Some v"
proof -
  have r1: "Configure_reload dec ''UTF-8'' True st = (Return (), st\<lparr>config := c1\<rparr>)"
    by (rule reload_ok [where dec = dec, OF assms(1,2,3)])
  have ne: "sect \<noteq> []" "key \<noteq> []"
    using clean_section_facts(1) [OF assms(5)]
      optionxform_nonempty [OF clean_key_facts(1) [OF assms(6)]]
    by simp_all
  from set_phase_clean [OF assms(4,5,6,7)] obtain c2 d2 where
    sp: "cp_set c1 sect key v = Inr c2
         \<or> (cp_set c1 sect key v = Inl NoSectionError
            \<and> (\<exists>cp1. cp_add_section c1 sect = Inr cp1 \<and> cp_set cp1 sect key v = Inr c2))"
    and cl2: "clean_parser c2"
    and m2: "map_of (cp_sections c2) sect = Some d2"
    and k2: "map_of d2 (optionxform key) = Some v"
    and df2: "cp_defaults c2 = cp_defaults c1"
    by blast
  let ?st2 = "st\<lparr>config := c2\<rparr>"
  have w: "Configure_write dec sect key v True st = Configure_save ?st2"
    using sp ne
    by (auto simp: Configure_write_def r1 and_then_simps)
  have "clean_parser (config ?st2)" using cl2 by simp
  from Configure_save_clean [OF this] obtain c3 where
    sv: "Configure_save ?st2
           = (Return (), ?st2\<lparr>config := c3,
                files := (files ?st2)(configure_path ?st2 \<mapsto> cp_write c3)\<rparr>)"
    and cl3: "clean_parser c3"
    and m3: "\<forall>n d. map_of (cp_sections (config ?st2)) n = Some d \<longrightarrow>
               map_of (cp_sections c3) n
               = Some (sort_key fst (dict_update (cp_defaults (config ?st2)) d))"
    by blast
  let ?d3 = "sort_key fst (dict_update (cp_defaults c2) d2)"
  from m3 m2 have m3': "map_of (cp_sections c3) sect = Some ?d3" by simp
  from m2 have "(sect, d2) \<in> set (cp_sections c2)" by (rule map_of_SomeD)
  with clean_parser_facts(2) [OF cl2] have cd2: "clean_dict d2" by force
  then have dd2: "distinct (map fst d2)" unfolding clean_dict_def by blast
  have "clean_dict (dict_update (cp_defaults c2) d2)"
    by (rule clean_dict_dict_update [OF clean_parser_facts(3) [OF cl2] cd2])
  then have "distinct (map fst (dict_update (cp_defaults c2) d2))"
    unfolding clean_dict_def by blast
  then have "map_of ?d3 = map_of (dict_update (cp_defaults c2) d2)"
    by (rule map_of_sort_key)
  with dict_update_lookup [OF dd2 k2] have k3: "map_of ?d3 (optionxform key) = Some v"
    by simp
  have "Configure_write dec sect key v True st
           = (Return (), st\<lparr>config := c3,
                files := (files st)(configure_path st \<mapsto> cp_write c3)\<rparr>)"
    using w sv by simp
  with cl3 m3' k3 show ?thesis by blast
qed

lemma same_shape_is_opt_of: "same_shape a b \<Longrightarrow> is_opt_of sn k b = is_opt_of sn k a"
  by (cases a) (auto simp: same_shape_def is_opt_of_def)

lemma same_shape_Header: "same_shape a b \<Longrightarrow> (b = Header n) = (a = Header n)"
  by (cases a) (auto simp: same_shape_def)

lemma Header_in_map:
  assumes "\<And>it. same_shape it (f it)"
  shows "Header n \<in> set (map f r) \<longleftrightarrow> Header n \<in> set r"
proof -
  have "(f it = Header n) = (it = Header n)" for it
    using assms [of it] by (rule same_shape_Header)
  then have "(Header n = f it) = (Header n = it)" for it
    by (metis)
  then show ?thesis
    by (simp add: image_iff)
qed

lemma items_wf_rev_map:
  assumes "\<And>it. same_shape it (f it)"
  shows "items_wf_rev (map f r) = items_wf_rev r"
proof (induction r)
  case Nil
  then show ?case by simp
next
  case (Cons x r)
  have h: "Header n \<in> set (map f r) \<longleftrightarrow> Header n \<in> set r" for n
    using assms by (rule Header_in_map)
  have o: "list_ex (is_opt_of sn k) (map f r) = list_ex (is_opt_of sn k) r" for sn k
    using same_shape_is_opt_of [OF assms] by (induction r) auto
  show ?case
  proof (cases x)
    case (Header n)
    with assms [of x] have "f x = Header n" by (simp add: same_shape_def)
    with Header Cons.IH show ?thesis by simp
  next
    case (Opt sn k ls)
    with assms [of x] obtain ls' where "f x = Opt sn k ls'" by (auto simp: same_shape_def)
    with Opt Cons.IH h o show ?thesis by simp
  qed
qed

lemma items_wf_append_value: "items_wf (ps_items (append_value st v)) = items_wf (ps_items st)"
proof -
  have "same_shape it (case it of Header name \<Rightarrow> Header name
                 | Opt sn k ls \<Rightarrow> if Some sn = a \<and> Some k = b then Opt sn k (ls @ [v]) else Opt sn k ls)"
    for it a b
    by (cases it) (simp_all add: same_shape_def)
  then show ?thesis
    unfolding items_wf_def append_value_def
    by (simp add: rev_map items_wf_rev_map)
qed

lemma Header_in_append_value:
  "Header n \<in> set (ps_items (append_value st v)) \<longleftrightarrow> Header n \<in> set (ps_items st)"
proof -
  have "Header n \<in> set (map f its) \<longleftrightarrow> Header n \<in> set its"
    if "\<And>it. same_shape it (f it)" for f and its :: "ini_item list"
    using that by (rule Header_in_map)
  moreover have "same_shape it (case it of Header name \<Rightarrow> Header name
                 | Opt sn k ls \<Rightarrow> if Some sn = a \<and> Some k = b then Opt sn k (ls @ [v]) else Opt sn k ls)"
    for it a b
    by (cases it) (simp_all add: same_shape_def)
  ultimately show ?thesis
    unfolding append_value_def by simp
qed

lemma parse_inv_append_value: "parse_inv st \<Longrightarrow> parse_inv (append_value st v)"
proof -
  assume a: "parse_inv st"
  have "ps_sectname (append_value st v) = ps_sectname st"
    by (simp add: append_value_def)
  with a show ?thesis
    unfolding parse_inv_def
    by (simp add: items_wf_append_value Header_in_append_value)
qed

lemma read_line_inv:
  assumes "read_line st line = Inr st'" and "parse_inv st"
  shows "parse_inv st'"
proof -
  note av = parse_inv_append_value [OF assms(2)]
  have lx: "list_ex P (rev xs) = list_ex P xs" for P and xs :: "ini_item list"
    by (simp add: list_ex_iff)
  from assms(1) show ?thesis
    unfolding read_line_def Let_def
    using assms(2) av
    by (auto simp: parse_inv_def items_wf_def lx
        split: if_splits option.splits prod.splits)
qed

lemma read_lines_inv:
  assumes "read_lines st ls = (e, st')" and "parse_inv st"
  shows "parse_inv st'"
  using assms
proof (induction ls arbitrary: st)
  case Nil
  then show ?case by simp
next
  case (Cons l ls)
  show ?case
  proof (cases "read_line st l")
    case (Inl x)
    with Cons.prems show ?thesis by simp
  next
    case (Inr st1)
    with Cons.prems have "read_lines st1 ls = (e, st')" by simp
    moreover from Inr Cons.prems(2) have "parse_inv st1" by (rule read_line_inv)
    ultimately show ?thesis by (rule Cons.IH)
  qed
qed

lemma ini_items_wf:
  assumes "ini_items tx = (e, its)"
  shows "items_wf its"
proof -
  obtain e' st where r: "read_lines initial_parse_state (file_lines tx) = (e', st)"
    by (cases "read_lines initial_parse_state (file_lines tx)")
  have "parse_inv initial_parse_state"
    by (simp add: parse_inv_def initial_parse_state_def items_wf_def)
  with r have "parse_inv st" by (rule read_lines_inv)
  with assms r show ?thesis
    by (auto simp: ini_items_def parse_inv_def split: option.splits)
qed

lemma stored_Header: "stored cp (Header n) = header_stored cp n"
  by (simp add: stored_def header_stored_def)

lemma stored_id: "stored cp it \<Longrightarrow> store_item it cp = cp"
proof (cases it)
  case (Header n)
  assume "stored cp it"
  with Header show ?thesis by (auto simp: stored_def)
next
  case (Opt sn k ls)
  assume s: "stored cp it"
  show ?thesis
  proof (cases "map_of (cp_sections cp) sn")
    case None
    with s Opt have "map_of (cp_defaults cp) k = Some (rstrip (join_lines ls))"
      by (simp add: stored_def)
    then have "AList.update k (rstrip (join_lines ls)) (cp_defaults cp) = cp_defaults cp"
      by (simp add: AList.update_triv)
    with None Opt show ?thesis by simp
  next
    case (Some d)
    with s Opt have "map_of d k = Some (rstrip (join_lines ls))"
      by (simp add: stored_def)
    then have "AList.update k (rstrip (join_lines ls)) d = d"
      by (simp add: AList.update_triv)
    moreover from Some have "AList.update sn d (cp_sections cp) = cp_sections cp"
      by (simp add: AList.update_triv)
    ultimately show ?thesis using Some Opt by simp
  qed
qed

lemma map_of_append_new:
  "map_of xs n = None \<Longrightarrow> map_of (xs @ [(n, v)]) m = (if m = n then Some v else map_of xs m)"
  by (simp add: map_add_def split: option.splits)

lemma store_item_stored:
  assumes "case it of Header n \<Rightarrow> True | Opt sn k ls \<Rightarrow> header_stored cp sn"
  shows "stored (store_item it cp) it"
proof (cases it)
  case (Header n)
  show ?thesis
  proof (cases "map_of (cp_sections cp) n \<noteq> None \<or> n = DEFAULTSECT")
    case True
    with Header show ?thesis by (auto simp: stored_def)
  next
    case False
    then have "map_of (cp_sections cp) n = None" and "n \<noteq> DEFAULTSECT" by auto
    with Header show ?thesis
      by (simp add: stored_def map_of_append_new del: map_of_append)
  qed
next
  case (Opt sn k ls)
  with assms have h: "header_stored cp sn" by simp
  show ?thesis
  proof (cases "map_of (cp_sections cp) sn")
    case None
    with h have "sn = DEFAULTSECT" by (simp add: header_stored_def)
    with None Opt show ?thesis
      by (simp add: stored_def AList.update_conv')
  next
    case (Some d)
    with Opt show ?thesis
      by (simp add: stored_def AList.update_conv')
  qed
qed

lemma header_stored_store_item:
  assumes "header_stored cp n"
  shows "header_stored (store_item it cp) n"
proof (cases it)
  case (Header m)
  show ?thesis
  proof (cases "map_of (cp_sections cp) m \<noteq> None \<or> m = DEFAULTSECT")
    case True
    with Header assms show ?thesis by auto
  next
    case False
    then have "map_of (cp_sections cp) m = None" and "m \<noteq> DEFAULTSECT" by auto
    with Header assms show ?thesis
      by (auto simp: header_stored_def map_of_append_new simp del: map_of_append)
  qed
next
  case (Opt sn k ls)
  show ?thesis
  proof (cases "map_of (cp_sections cp) sn")
    case None
    with Opt assms show ?thesis by (simp add: header_stored_def)
  next
    case (Some d)
    with Opt assms show ?thesis
      by (auto simp: header_stored_def AList.update_conv')
  qed
qed

lemma stored_store_item:
  assumes "stored cp y"
    and "\<And>sn k. is_opt_of sn k x \<Longrightarrow> \<not> is_opt_of sn k y"
    and "case x of Header n \<Rightarrow> True | Opt sn k ls \<Rightarrow> header_stored cp sn"
  shows "stored (store_item x cp) y"
proof (cases y)
  case (Header n)
  with assms(1) show ?thesis
    by (simp add: stored_Header header_stored_store_item)
next
  case y: (Opt sn k ls)
  show ?thesis
  proof (cases x)
    case (Header m)
    show ?thesis
    proof (cases "map_of (cp_sections cp) m \<noteq> None \<or> m = DEFAULTSECT")
      case True
      with Header assms(1) show ?thesis by auto
    next
      case False
      then have n: "map_of (cp_sections cp) m = None" and d: "m \<noteq> DEFAULTSECT" by auto
      from n d Header have
        s: "cp_sections (store_item x cp) = cp_sections cp @ [(m, [])]"
        and f: "cp_defaults (store_item x cp) = cp_defaults cp"
        by simp_all
      show ?thesis
      proof (cases "map_of (cp_sections cp) sn")
        case None
        with assms(1) y have "sn = DEFAULTSECT" by (simp add: stored_def)
        with d have "sn \<noteq> m" by simp
        with None n have "map_of (cp_sections (store_item x cp)) sn = None"
          by (simp add: s map_of_append_new del: map_of_append)
        with assms(1) y None f show ?thesis by (simp add: stored_def)
      next
        case (Some dd)
        with n have "sn \<noteq> m" by auto
        with Some n have "map_of (cp_sections (store_item x cp)) sn = Some dd"
          by (simp add: s map_of_append_new del: map_of_append)
        with assms(1) y Some show ?thesis by (simp add: stored_def)
      qed
    qed
  next
    case x: (Opt sn' k' ls')
    from assms(2) [of sn' k'] x y have ne: "\<not> (sn = sn' \<and> k = k')"
      by (auto simp: is_opt_of_def)
    from assms(3) x have h: "header_stored cp sn'" by simp
    show ?thesis
    proof (cases "map_of (cp_sections cp) sn'")
      case None
      with h have dd: "sn' = DEFAULTSECT" by (simp add: header_stored_def)
      from None x have
        s: "cp_sections (store_item x cp) = cp_sections cp"
        and f: "cp_defaults (store_item x cp)
                  = AList.update k' (rstrip (join_lines ls')) (cp_defaults cp)"
        by simp_all
      show ?thesis
      proof (cases "map_of (cp_sections cp) sn")
        case None
        with assms(1) y have "sn = DEFAULTSECT"
          and m: "map_of (cp_defaults cp) k = Some (rstrip (join_lines ls))"
          by (simp_all add: stored_def)
        with dd ne have "k \<noteq> k'" by simp
        with m have "map_of (cp_defaults (store_item x cp)) k = Some (rstrip (join_lines ls))"
          by (simp add: f AList.update_conv')
        with None y \<open>sn = DEFAULTSECT\<close> show ?thesis by (simp add: stored_def s)
      next
        case (Some d)
        with assms(1) y show ?thesis by (simp add: stored_def s)
      qed
    next
      case (Some d')
      with x have
        s: "cp_sections (store_item x cp)
              = AList.update sn' (AList.update k' (rstrip (join_lines ls')) d') (cp_sections cp)"
        and f: "cp_defaults (store_item x cp) = cp_defaults cp"
        by simp_all
      show ?thesis
      proof (cases "sn = sn'")
        case True
        with ne have "k \<noteq> k'" by simp
        from True Some assms(1) y have "map_of d' k = Some (rstrip (join_lines ls))"
          by (simp add: stored_def)
        with \<open>k \<noteq> k'\<close> True y show ?thesis
          by (simp add: stored_def s AList.update_conv')
      next
        case False
        then have "map_of (cp_sections (store_item x cp)) sn = map_of (cp_sections cp) sn"
          by (simp add: s AList.update_conv')
        with assms(1) y f show ?thesis
          by (simp add: stored_def split: option.splits)
      qed
    qed
  qed
qed

lemma fold_store_item_snoc:
  "fold store_item (its @ [x]) cp = store_item x (fold store_item its cp)"
  by simp

lemma items_wf_rev_stored:
  "items_wf_rev r \<Longrightarrow> \<forall>it \<in> set r. stored (fold store_item (rev r) cp) it"
proof (induction r)
  case Nil
  then show ?case by simp
next
  case (Cons x r)
  define c where "c = fold store_item (rev r) cp"
  from Cons.prems have w: "items_wf_rev r" by (cases x) simp_all
  with Cons.IH have ih: "\<forall>it \<in> set r. stored c it" by (simp add: c_def)
  have hs: "case x of Header n \<Rightarrow> True | Opt sn k ls \<Rightarrow> header_stored c sn"
  proof (cases x)
    case (Header n)
    then show ?thesis by simp
  next
    case (Opt sn k ls)
    with Cons.prems have "Header sn \<in> set r" by simp
    with ih have "stored c (Header sn)" by blast
    with Opt show ?thesis by (simp add: stored_Header)
  qed
  have "stored (store_item x c) it" if "it \<in> set (x # r)" for it
  proof (cases "it = x")
    case True
    with hs show ?thesis by (simp add: store_item_stored)
  next
    case False
    with that have m: "it \<in> set r" by simp
    with ih have "stored c it" by blast
    moreover have "\<not> is_opt_of sn k it" if "is_opt_of sn k x" for sn k
    proof
      assume i: "is_opt_of sn k it"
      from that obtain ls where "x = Opt sn k ls"
        by (cases x) (auto simp: is_opt_of_def)
      with Cons.prems have "\<not> list_ex (is_opt_of sn k) r" by simp
      with m i show False by (auto simp: list_ex_iff)
    qed
    ultimately show ?thesis using hs by (rule stored_store_item)
  qed
  then show ?case by (simp add: c_def)
qed

lemma fold_store_item_idem:
  assumes "items_wf its"
  shows "fold store_item its (fold store_item its cp) = fold store_item its cp"
proof -
  from assms have "\<forall>it \<in> set (rev its). stored (fold store_item (rev (rev its)) cp) it"
    unfolding items_wf_def by (rule items_wf_rev_stored)
  then have "\<forall>it \<in> set its. store_item it (fold store_item its cp) = fold store_item its cp"
    by (simp add: stored_id)
  then show ?thesis by (rule fold_store_item_id)
qed

lemma cp_read_text_idem:
  assumes "cp_read_text cp tx = (e, c1)"
  shows "cp_read_text c1 tx = (e, c1)"
proof -
  obtain e' its where i: "ini_items tx = (e', its)" by (cases "ini_items tx")
  then have "items_wf its" by (rule ini_items_wf)
  then have "fold store_item its (fold store_item its cp) = fold store_item its cp"
    by (rule fold_store_item_idem)
  with assms i show ?thesis by (auto simp: cp_read_text_def)
qed


lemma write_read_clean:
  assumes "files st (configure_path st) = Some content"
    and "dec ''UTF-8'' content = Some tx"
    and "cp_read_text (config st) tx = (None, c1)"
    and "clean_parser c1" and "utf8_faithful dec"
    and "clean_section sect" and "clean_key (optionxform key)" and "clean_value v"
  shows "\<exists>st'. Configure_write dec sect key v True st = (Return (), st')
           \<and> Configure_read dec sect key None required st' = (Return (Some v), st')"
proof -
  from write_clean [where dec = dec, OF assms(1,2,3,4,6,7,8)] obtain c3 d3 where
    w: "Configure_write dec sect key v True st
           = (Return (), st\<lparr>config := c3,
                files := (files st)(configure_path st \<mapsto> cp_write c3)\<rparr>)"
    and cl3: "clean_parser c3"
    and m3: "map_of (cp_sections c3) sect = Some d3"
    and k3: "map_of d3 (optionxform key) = Some v"
    by blast
  let ?st' = "st\<lparr>config := c3, files := (files st)(configure_path st \<mapsto> cp_write c3)\<rparr>"
  have "clean_parser (config ?st')" using cl3 by simp
  moreover have "files ?st' (configure_path ?st') = Some (cp_write (config ?st'))" by simp
  ultimately have r: "Configure_reload dec ''UTF-8'' True ?st' = (Return (), ?st')"
    using assms(5) by (intro reload_written) 
  have g: "cp_get c3 sect key = Inr v"
    by (rule cp_get_clean [OF m3 k3 clean_value_plain [OF assms(8)]])
  have ne: "sect \<noteq> []" "key \<noteq> []"
    using clean_section_facts(1) [OF assms(6)]
      optionxform_nonempty [OF clean_key_facts(1) [OF assms(7)]]
    by simp_all
  have "Configure_read dec sect key None required ?st' = (Return (Some v), ?st')"
    using ne by (simp add: Configure_read_def Configure_read_conf_def r and_then_simps g save_default_def)
  with w show ?thesis by blast
qed

lemma str_of_int_42: "str_of_int 42 = ''42''"
  by code_simp

lemma int_of_str_42: "int_of_str ''42'' = Some 42"
  by code_simp

lemma clean_value_42: "clean_value ''42''"
  by code_simp
section \<open>The accessors on a loaded store\<close>











text \<open>
  \<open>read_json\<close> hands what \<open>_read_conf\<close> returns to \<open>json.loads\<close> and catches
  \<open>JSONDecodeError\<close> only. For a key that is absent \<open>_read_conf\<close> returns \<open>None\<close>, and
  \<open>json.loads(None)\<close> raises \<open>TypeError\<close>, which leaves the method. (\<open>read_bool\<close> tests
  the type of the value first; \<open>read_int\<close> and \<open>read_float\<close> meet \<open>None\<close> for an empty
  name only.)
\<close>

lemma read_json_absent_raises:
  assumes "files st (configure_path st) = Some content"
    and "dec ''UTF-8'' content = Some tx"
    and "cp_read_text (config st) tx = (None, cp)"
    and "cp_get cp sect key = Inl e" and "is_absent e"
  shows "Configure_read_json dec json_loads sect key st = (Raise TypeError, st\<lparr>config := cp\<rparr>)"
  using assms
  by (simp add: Configure_read_json_def Configure_read_conf_def
      reload_ok [where dec = dec, OF assms(1,2,3)] and_then_simps)

section \<open>What a save that returns leaves\<close>

text \<open>
  When \<open>_save\<close> returns, every section that \<open>sections()\<close> lists has its keys in sorted
  order, and the file holds the text of the parser. (The keys under \<open>DEFAULT\<close> are not
  among them: \<open>_save\<close> copies them into every section and leaves their own block as it
  is.) After \<open>write("sec", "b", "2")\<close> and \<open>write("sec", "a", "1")\<close>, a save that returns
  leaves key \<open>a\<close> before key \<open>b\<close>.
\<close>

lemma returning_save_sorts:
  assumes "parser_ok (config st)"
  shows "(\<forall>u st'. Configure_save st = (Return u, st') \<longrightarrow>
            (\<forall>p \<in> set (cp_sections (config st')). sorted (map fst (snd p)))
            \<and> files st' (configure_path st') = Some (cp_write (config st')))
       \<and> (\<forall>s1 s2 u1 st1 u2 st2 u3 st3.
            Configure_write dec ''sec'' ''b'' ''2'' s1 st = (Return u1, st1)
            \<and> Configure_write dec ''sec'' ''a'' ''1'' s2 st1 = (Return u2, st2)
            \<and> Configure_save st2 = (Return u3, st3) \<longrightarrow>
            (\<exists>d pre mid post. map_of (cp_sections (config st3)) ''sec'' = Some d
                \<and> map fst d = pre @ ''a'' # mid @ ''b'' # post)
            \<and> files st3 (configure_path st3) = Some (cp_write (config st3)))"
proof (intro conjI allI impI ballI)
  fix u st' p
  assume s: "Configure_save st = (Return u, st')"
  show "files st' (configure_path st') = Some (cp_write (config st'))"
    using Configure_save_result(5) [OF assms s]
    by (metis fun_upd_same state.select_convs(2,3) state.surjective state.update_convs(1,3))
  assume "p \<in> set (cp_sections (config st'))"
  with assms s show "sorted (map fst (snd p))" by (rule save_sorted_sections)
next
  fix s1 s2 u1 st1 u2 st2 u3 st3
  assume a: "Configure_write dec ''sec'' ''b'' ''2'' s1 st = (Return u1, st1)
            \<and> Configure_write dec ''sec'' ''a'' ''1'' s2 st1 = (Return u2, st2)
            \<and> Configure_save st2 = (Return u3, st3)"
  then have w1: "Configure_write dec ''sec'' ''b'' ''2'' s1 st = (Return u1, st1)"
    and w2: "Configure_write dec ''sec'' ''a'' ''1'' s2 st1 = (Return u2, st2)"
    and sv: "Configure_save st2 = (Return u3, st3)"
    by simp_all
  have nd: "''sec'' \<noteq> DEFAULTSECT" by (simp add: DEFAULTSECT_def)
  have xa: "optionxform ''a'' = ''a''" and xb: "optionxform ''b'' = ''b''"
    by (simp_all add: optionxform_def lower_def lower_char_def)
  note k1 = write_keeps_ok [OF assms w1]
  note k2 = write_keeps_ok [OF k1(1) w2]
  from k1(3) [OF nd] xb have "in_section (config st1) ''sec'' ''b''" by simp
  then have b2: "in_section (config st2) ''sec'' ''b''" by (rule k2(2))
  from k2(3) [OF nd] xa have a2: "in_section (config st2) ''sec'' ''a''" by simp
  from a2 b2 have b3: "in_section (config st3) ''sec'' ''b''"
    and a3: "in_section (config st3) ''sec'' ''a''"
    by (auto intro: save_keeps [OF k2(1) sv])
  then obtain d where m: "map_of (cp_sections (config st3)) ''sec'' = Some d"
    and ia: "''a'' \<in> set (map fst d)" and ib: "''b'' \<in> set (map fst d)"
    by (auto simp: in_section_def split: option.splits)
  from m have "(''sec'', d) \<in> set (cp_sections (config st3))" by (rule map_of_SomeD)
  from save_sorted_sections [OF k2(1) sv this] have "sorted (map fst d)" by simp
  from sorted_order [OF this ia ib a_less_b] m
  show "\<exists>d pre mid post. map_of (cp_sections (config st3)) ''sec'' = Some d
                \<and> map fst d = pre @ ''a'' # mid @ ''b'' # post"
    by blast
  show "files st3 (configure_path st3) = Some (cp_write (config st3))"
    using Configure_save_result(5) [OF k2(1) sv]
    by (metis fun_upd_same state.select_convs(2,3) state.surjective state.update_convs(1,3))
qed

lemma returning_save_sorts_example:
  "parser_ok (config empty_store)
   \<and> Configure_write utf8_only ''sec'' ''b'' ''2'' False empty_store = (Return (), wrote_b)
   \<and> Configure_write utf8_only ''sec'' ''a'' ''1'' False wrote_b = (Return (), wrote_b_a)
   \<and> Configure_save wrote_b_a = (Return (), saved_b_a)
   \<and> cp_sections (config wrote_b_a) = [(''sec'', [(''b'', ''2''), (''a'', ''1'')])]
   \<and> (\<exists>d pre mid post. map_of (cp_sections (config saved_b_a)) ''sec'' = Some d
         \<and> map fst d = pre @ ''a'' # mid @ ''b'' # post)
   \<and> files saved_b_a (configure_path saved_b_a) = Some (cp_write (config saved_b_a))
   \<and> cp_sections (config saved_b_a) = [(''sec'', [(''a'', ''1''), (''b'', ''2'')])]
   \<and> files saved_b_a ''config.ini''
       = Some (''[sec]'' @ [NL] @ ''a = 1'' @ [NL] @ ''b = 2'' @ [NL, NL])"
proof -
  have w1: "Configure_write utf8_only ''sec'' ''b'' ''2'' False empty_store = (Return (), wrote_b)"
    using wrote_b_returns by (simp add: wrote_b_def prod_eq_iff)
  have w2: "Configure_write utf8_only ''sec'' ''a'' ''1'' False wrote_b = (Return (), wrote_b_a)"
    using wrote_b_a_returns by (simp add: wrote_b_a_def prod_eq_iff)
  have sv: "Configure_save wrote_b_a = (Return (), saved_b_a)"
    using saved_b_a_returns by (simp add: saved_b_a_def prod_eq_iff)
  from returning_save_sorts [OF empty_store_ok, of utf8_only] w1 w2 sv
  have "(\<exists>d pre mid post. map_of (cp_sections (config saved_b_a)) ''sec'' = Some d
         \<and> map fst d = pre @ ''a'' # mid @ ''b'' # post)
      \<and> files saved_b_a (configure_path saved_b_a) = Some (cp_write (config saved_b_a))"
    by blast
  with empty_store_ok w1 w2 sv wrote_b_a_sections saved_b_a_sections saved_b_a_file
  show ?thesis by blast
qed

text \<open>
  On a clean store, read through a faithful decoder, the default of \<open>read_int\<close> for an
  absent key is returned and persisted, and \<open>read\<close> finds it as text.
\<close>

lemma read_int_default:
  assumes "files st (configure_path st) = Some content"
    and "dec ''UTF-8'' content = Some tx"
    and "cp_read_text (config st) tx = (None, c1)"
    and "clean_parser c1" and "utf8_faithful dec"
    and "clean_section sect" and "clean_key (optionxform key)"
    and "cp_get c1 sect key = Inl e" and "is_absent e"
  shows "\<exists>st'. Configure_read_int dec sect key (Some 42) required st = (Return (Some 42), st')
           \<and> Configure_read dec sect key None required' st' = (Return (Some ''42''), st')"
proof -
  let ?st1 = "st\<lparr>config := c1\<rparr>"
  have r1: "Configure_reload dec ''UTF-8'' True st = (Return (), ?st1)"
    by (rule reload_ok [where dec = dec, OF assms(1,2,3)])
  have ne: "sect \<noteq> []" "key \<noteq> []"
    using clean_section_facts(1) [OF assms(6)]
      optionxform_nonempty [OF clean_key_facts(1) [OF assms(7)]]
    by simp_all
  have rc: "Configure_read_conf dec sect key (Some ''42'') required st
              = (Return (Some ''42''), ?st1)"
    using ne assms(8,9)
    by (simp add: Configure_read_conf_def r1 and_then_simps)
  have f1: "files ?st1 (configure_path ?st1) = Some content"
    using assms(1) by simp
  have p1: "cp_read_text (config ?st1) tx = (None, c1)"
    using cp_read_text_idem [OF assms(3)] by simp
  from write_read_clean [where dec = dec and required = required',
      OF f1 assms(2) p1 assms(4,5,6,7) clean_value_42]
  obtain st' where
    w: "Configure_write dec sect key ''42'' True ?st1 = (Return (), st')"
    and r: "Configure_read dec sect key None required' st' = (Return (Some ''42''), st')"
    by blast
  have sd: "save_default dec sect key str_of_int (Some 42) ?st1 = (Return (Some 42), st')"
    using assms(8,9)
    by (simp add: save_default_def w and_then_simps str_of_int_42)
  have "Configure_read_int dec sect key (Some 42) required st = (Return (Some 42), st')"
    by (simp add: Configure_read_int_def str_of_opt_def str_of_int_42 rc and_then_simps
        int_of_str_42 sd)
  with r show ?thesis by blast
qed

lemma read_int_default_example:
  "files tiny_state (configure_path tiny_state) = Some tiny_file
   \<and> utf8_only ''UTF-8'' tiny_file = Some tiny_file
   \<and> cp_read_text (config tiny_state) tiny_file = (None, tiny_parser)
   \<and> clean_parser tiny_parser \<and> utf8_faithful utf8_only
   \<and> clean_section ''new'' \<and> clean_key (optionxform ''Count'')
   \<and> cp_get tiny_parser ''new'' ''Count'' = Inl NoSectionError \<and> is_absent NoSectionError
   \<and> (\<exists>st'. Configure_read_int utf8_only ''new'' ''Count'' (Some 42) True tiny_state
                = (Return (Some 42), st')
          \<and> Configure_read utf8_only ''new'' ''Count'' None True st'
                = (Return (Some ''42''), st'))"
proof -
  have h1: "files tiny_state (configure_path tiny_state) = Some tiny_file"
    by (simp add: tiny_state_def)
  have h2: "utf8_only ''UTF-8'' tiny_file = Some tiny_file"
    by (simp add: utf8_only_def)
  have h3: "cp_read_text (config tiny_state) tiny_file = (None, tiny_parser)"
    by code_simp
  have h4: "clean_parser tiny_parser" by code_simp
  have h5: "utf8_faithful utf8_only" by (simp add: utf8_faithful_def utf8_only_def)
  have h6: "clean_section ''new''" by code_simp
  have h7: "clean_key (optionxform ''Count'')" by code_simp
  have h8: "cp_get tiny_parser ''new'' ''Count'' = Inl NoSectionError" by code_simp
  have h9: "is_absent NoSectionError" by (simp add: is_absent_def)
  from read_int_default [where dec = utf8_only and st = tiny_state and required = True
      and required' = True, OF h1 h2 h3 h4 h5 h6 h7 h8 h9]
  show ?thesis using h1 h2 h3 h4 h5 h6 h7 h8 h9 by blast
qed


section \<open>The claims\<close>

text \<open>
  C3. Reading a key that is absent from the store, with \<open>required\<close> set and no default,
  returns \<open>None\<close> and changes nothing: the file is not rewritten, and the parser is the
  one that the reload at the start of \<open>read\<close> produced, with no key added; when the
  reload finds the parser already equal to the file, the whole state is as before.
  The store is the file as reloaded into the parser, and a key is absent from it when
  \<open>get\<close> raises \<open>NoSectionError\<close> or \<open>NoOptionError\<close>.
\<close>

theorem read_absent_required:
  assumes "files st (configure_path st) = Some content"
    and "dec ''UTF-8'' content = Some text"
    and "cp_read_text (config st) text = (None, cp)"
    and "cp_get cp sect key = Inl e" and "is_absent e"
  shows "Configure_read dec sect key None True st = (Return None, st\<lparr>config := cp\<rparr>)
       \<and> (cp = config st \<longrightarrow> Configure_read dec sect key None True st = (Return None, st))"
  using assms
  by (auto simp: Configure_read_def Configure_read_conf_def reload_ok and_then_simps save_default_def)

theorem read_absent_required_witness:
  "files tiny_state (configure_path tiny_state) = Some tiny_file
   \<and> utf8_only ''UTF-8'' tiny_file = Some tiny_file
   \<and> cp_read_text (config tiny_state) tiny_file = (None, tiny_parser)
   \<and> cp_get tiny_parser ''sec'' ''other'' = Inl NoOptionError \<and> is_absent NoOptionError
   \<and> Configure_read utf8_only ''sec'' ''other'' None True tiny_state
        = (Return None, tiny_state\<lparr>config := tiny_parser\<rparr>)
   \<and> tiny_parser = config tiny_state
   \<and> Configure_read utf8_only ''sec'' ''other'' None True tiny_state = (Return None, tiny_state)"
proof -
  have h1: "files tiny_state (configure_path tiny_state) = Some tiny_file"
    by (simp add: tiny_state_def)
  have h2: "utf8_only ''UTF-8'' tiny_file = Some tiny_file"
    by (simp add: utf8_only_def)
  have h3: "cp_read_text (config tiny_state) tiny_file = (None, tiny_parser)"
    by (simp add: tiny_state_def tiny_read)
  have h4: "cp_get tiny_parser ''sec'' ''other'' = Inl NoOptionError"
    by code_simp
  have h5: "is_absent NoOptionError"
    by (simp add: is_absent_def)
  have h6: "tiny_parser = config tiny_state"
    by (simp add: tiny_state_def)
  show ?thesis
    using h1 h2 h3 h4 h5 h6 read_absent_required [where dec = utf8_only, OF h1 h2 h3 h4 h5] by simp
qed

text \<open>
  C5, where the code fails it. The store of \<open>percent_store\<close> is as it was loaded from
  its file, which holds \<open>rate = 50%%\<close> in section \<open>s\<close>. A save of it does not sort and
  write: \<open>_save\<close> takes the values from \<open>items\<close>, which interpolates them, removes the key
  \<open>rate\<close> and sets it to \<open>50%\<close>, which \<open>set\<close> refuses with \<open>ValueError\<close>; the key is gone
  from the parser and the file is not written. And a save that returns sorts the keys
  of the sections that \<open>sections()\<close> lists only: the keys under \<open>DEFAULT\<close> of
  \<open>default_store\<close> stay in the order \<open>z\<close>, \<open>b\<close>, in the parser and at the head of the file,
  while section \<open>sec\<close> gets a sorted copy of them.
\<close>

theorem save_fails_on_percent:
  "fst (Configure_reload utf8_only ''UTF-8'' True percent_store) = Return ()
   \<and> config (snd (Configure_reload utf8_only ''UTF-8'' True percent_store))
       = config percent_store
   \<and> fst (Configure_save percent_store) = Raise ValueError
   \<and> cp_sections (config (snd (Configure_save percent_store))) = [(''s'', [])]
   \<and> files (snd (Configure_save percent_store)) ''config.ini'' = Some percent_file
   \<and> fst (Configure_save default_store) = Return ()
   \<and> cp_defaults (config (snd (Configure_save default_store))) = [(''z'', ''1''), (''b'', ''2'')]
   \<and> cp_sections (config (snd (Configure_save default_store)))
       = [(''sec'', [(''b'', ''2''), (''k'', ''v''), (''z'', ''1'')])]
   \<and> files (snd (Configure_save default_store)) ''config.ini''
       = Some (''[DEFAULT]'' @ [NL] @ ''z = 1'' @ [NL] @ ''b = 2'' @ [NL] @ [NL]
               @ ''[sec]'' @ [NL] @ ''b = 2'' @ [NL] @ ''k = v'' @ [NL] @ ''z = 1'' @ [NL] @ [NL])"
  by code_simp




text \<open>
  C8. \<open>write\<close> with an empty section name or an empty key name never returns, whatever
  the value: once the reload at its start has returned, the process leaves with exit
  status 1 (as it does when that reload finds no file); an exception of the reload
  leaves the call as it is. No file is changed, and the parser is the one the reload
  left: the value is not set.
\<close>

theorem write_empty_name:
  assumes "sect = [] \<or> key = []"
  shows "(\<forall>u. fst (Configure_write dec sect key v store st) \<noteq> Return u)
       \<and> files (snd (Configure_write dec sect key v store st)) = files st
       \<and> config (snd (Configure_write dec sect key v store st))
           = config (snd (Configure_reload dec ''UTF-8'' True st))
       \<and> ((\<forall>e. fst (Configure_reload dec ''UTF-8'' True st) \<noteq> Raise e)
            \<longrightarrow> fst (Configure_write dec sect key v store st) = Exit 1)
       \<and> (\<forall>e. fst (Configure_reload dec ''UTF-8'' True st) = Raise e
            \<longrightarrow> fst (Configure_write dec sect key v store st) = Raise e)"
proof -
  from reload_cases [of dec "''UTF-8''" st]
  consider st1 where "Configure_reload dec ''UTF-8'' True st = (Return (), st1)"
    | st1 where "Configure_reload dec ''UTF-8'' True st = (Exit 1, st1)"
    | e st1 where "Configure_reload dec ''UTF-8'' True st = (Raise e, st1)"
    by blast
  then show ?thesis
  proof cases
    case 1
    with reload_files [of dec "''UTF-8''" st] assms show ?thesis
      by (auto simp: Configure_write_def and_then_def)
  next
    case 2
    with reload_files [of dec "''UTF-8''" st] assms show ?thesis
      by (auto simp: Configure_write_def and_then_def)
  next
    case 3
    with reload_files [of dec "''UTF-8''" st] assms show ?thesis
      by (auto simp: Configure_write_def and_then_def)
  qed
qed

theorem write_empty_name_witness:
  "([] = [] \<or> ''k'' = ([] :: string))
   \<and> fst (Configure_reload utf8_only ''UTF-8'' True tiny_state) = Return ()
   \<and> fst (Configure_write utf8_only [] ''k'' ''v'' True tiny_state) = Exit 1
   \<and> files (snd (Configure_write utf8_only [] ''k'' ''v'' True tiny_state)) = files tiny_state
   \<and> config (snd (Configure_write utf8_only [] ''k'' ''v'' True tiny_state))
       = config (snd (Configure_reload utf8_only ''UTF-8'' True tiny_state))"
proof -
  have h: "[] = [] \<or> ''k'' = ([] :: string)" by simp
  have r: "fst (Configure_reload utf8_only ''UTF-8'' True tiny_state) = Return ()"
    by code_simp
  from r have "\<forall>e. fst (Configure_reload utf8_only ''UTF-8'' True tiny_state) \<noteq> Raise e"
    by simp
  with write_empty_name [OF h, of utf8_only "''v''" True tiny_state] r h
  show ?thesis by blast
qed

text \<open>
  C9. After construction, when the configuration file is absent at the moment \<open>read\<close>,
  \<open>read_bool\<close>, \<open>read_int\<close>, \<open>read_float\<close>, \<open>read_json\<close> or \<open>write\<close> is called, the reload
  at the start of the call ends the process with exit status 1, whatever the arguments;
  nothing of the state is changed before.
\<close>

theorem missing_file_exits:
  assumes "files st (configure_path st) = None"
  shows "Configure_read dec sect key dflt required st = (Exit 1, st)
       \<and> Configure_read_bool dec sect key dflt_b required st = (Exit 1, st)
       \<and> Configure_read_int dec sect key dflt_i required st = (Exit 1, st)
       \<and> Configure_read_float dec float_of_str str_of_float sect key dflt_f required st
           = (Exit 1, st)
       \<and> Configure_read_json dec json_loads sect key st = (Exit 1, st)
       \<and> Configure_write dec sect key v store st = (Exit 1, st)"
  using assms
  by (simp add: Configure_read_def Configure_read_bool_def Configure_read_int_def
      Configure_read_float_def Configure_read_json_def Configure_write_def
      Configure_read_conf_def reload_missing and_then_simps)

theorem missing_file_exits_witness:
  "files lost_file (configure_path lost_file) = None
   \<and> Configure_read utf8_only ''sec'' ''k'' None True lost_file = (Exit 1, lost_file)
   \<and> Configure_read_bool utf8_only ''sec'' ''k'' (Some True) True lost_file = (Exit 1, lost_file)
   \<and> Configure_read_int utf8_only ''sec'' ''k'' (Some 42) True lost_file = (Exit 1, lost_file)
   \<and> Configure_read_float utf8_only float_of_str_ex str_of_float_ex ''sec'' ''k'' None True lost_file
       = (Exit 1, lost_file)
   \<and> Configure_read_json utf8_only json_loads_ex ''sec'' ''k'' lost_file = (Exit 1, lost_file)
   \<and> Configure_write utf8_only ''sec'' ''k'' ''v'' True lost_file = (Exit 1, lost_file)"
proof -
  have h: "files lost_file (configure_path lost_file) = None"
    by (simp add: lost_file_def)
  show ?thesis
    using h missing_file_exits [OF h, of utf8_only "''sec''" "''k''" None True "Some True" "Some 42"
        float_of_str_ex str_of_float_ex None json_loads_ex "''v''" True]
    by simp
qed









text \<open>
  C6, where the code fails it. The store of \<open>percent_store\<close> is as it was loaded from
  its file, which holds \<open>rate = 50%%\<close> in section \<open>s\<close>; the key \<open>n\<close> is absent from it.
  \<open>read_int("s", "n", default_val=42)\<close> does not return 42: it sets \<open>n\<close> to \<open>42\<close> in the
  parser and calls \<open>_save\<close>, which removes the key \<open>rate\<close> and sets it to its interpolated
  value \<open>50%\<close>; \<open>set\<close> refuses that with \<open>ValueError\<close>, which leaves \<open>read_int\<close>. The file
  is not written, so the default is not persisted, and the key \<open>rate\<close> is gone from the
  parser.
\<close>

theorem read_int_fails_on_percent:
  "fst (Configure_reload utf8_only ''UTF-8'' True percent_store) = Return ()
   \<and> config (snd (Configure_reload utf8_only ''UTF-8'' True percent_store))
       = config percent_store
   \<and> cp_get (config percent_store) ''s'' ''n'' = Inl NoOptionError
   \<and> fst (Configure_read_int utf8_only ''s'' ''n'' (Some 42) True percent_store)
       = Raise ValueError
   \<and> cp_sections (config (snd (Configure_read_int utf8_only ''s'' ''n'' (Some 42) True
         percent_store))) = [(''s'', [(''n'', ''42'')])]
   \<and> files (snd (Configure_read_int utf8_only ''s'' ''n'' (Some 42) True percent_store))
         ''config.ini'' = Some percent_file"
  by code_simp





end
